theory Spec2Isabelle
  imports Complex_Main
begin

section \<open>Python text\<close>

text \<open>
  A Python \<open>str\<close> is a sequence of Unicode code points, and \<open>len\<close>, slicing and the
  regular expressions of the source all count code points. A text is therefore a list of
  code points (natural numbers); \<open>str\<close> turns an ASCII literal into such a list.
\<close>

type_synonym pchar = nat
type_synonym pstr = "nat list"

definition str :: "string \<Rightarrow> pstr" where
  "str s = map of_char s"

abbreviation (input) NL :: pchar where "NL \<equiv> 10"
abbreviation (input) CR :: pchar where "CR \<equiv> 13"

text \<open>\<open>str(n)\<close> for a non-negative integer: its decimal digits.\<close>

fun str_of_nat :: "nat \<Rightarrow> pstr" where
  "str_of_nat n = (if n < 10 then [48 + n] else str_of_nat (n div 10) @ [48 + n mod 10])"

declare str_of_nat.simps [simp del]

text \<open>\<open>s.split(c)\<close> for a one-character separator: never empty, \<open>''.split(c) == ['']\<close>.\<close>

fun split_chr :: "pchar \<Rightarrow> pstr \<Rightarrow> pstr list" where
  "split_chr c [] = [[]]"
| "split_chr c (x # xs) =
     (if x = c then [] # split_chr c xs
      else (case split_chr c xs of
              [] \<Rightarrow> [[x]]
            | l # ls \<Rightarrow> (x # l) # ls))"

text \<open>\<open>sep.join(parts)\<close>.\<close>

fun join :: "pstr \<Rightarrow> pstr list \<Rightarrow> pstr" where
  "join sep [] = []"
| "join sep [x] = x"
| "join sep (x # y # ys) = x @ sep @ join sep (y # ys)"

text \<open>\<open>s.rstrip(chars)\<close>: drops every trailing character that occurs in \<open>chars\<close>.\<close>

definition rstrip_chars :: "pstr \<Rightarrow> pstr \<Rightarrow> pstr" where
  "rstrip_chars chars s = rev (dropWhile (\<lambda>c. c \<in> set chars) (rev s))"

text \<open>
  \<open>str.isspace\<close> for one character, which is also what \<open>str.strip()\<close> removes and what
  \<open>\s\<close> matches in a \<open>str\<close> pattern: the ASCII white space, the separators 28 to 31, NEL,
  the no-break space and the Unicode space separators.
\<close>

definition isspace :: "pchar \<Rightarrow> bool" where
  "isspace c \<longleftrightarrow> c \<in> {9, 10, 11, 12, 13, 28, 29, 30, 31, 32, 133, 160, 5760,
                     8192, 8193, 8194, 8195, 8196, 8197, 8198, 8199, 8200, 8201, 8202,
                     8232, 8233, 8239, 8287, 12288}"

text \<open>\<open>s.strip()\<close>.\<close>

definition strip :: "pstr \<Rightarrow> pstr" where
  "strip s = rev (dropWhile isspace (rev (dropWhile isspace s)))"

text \<open>\<open>s.startswith(p)\<close> and \<open>s.endswith(p)\<close>.\<close>

definition startswith :: "pstr \<Rightarrow> pstr \<Rightarrow> bool" where
  "startswith s p \<longleftrightarrow> take (length p) s = p"

definition endswith :: "pstr \<Rightarrow> pstr \<Rightarrow> bool" where
  "endswith s p \<longleftrightarrow> length p \<le> length s \<and> drop (length s - length p) s = p"

text \<open>\<open>sub in s\<close>, and \<open>s.find(sub)\<close> with \<open>None\<close> for \<open>-1\<close>.\<close>

fun contains :: "pstr \<Rightarrow> pstr \<Rightarrow> bool" where
  "contains [] sub = (sub = [])"
| "contains (c # cs) sub = (startswith (c # cs) sub \<or> contains cs sub)"

fun find_str :: "pstr \<Rightarrow> pstr \<Rightarrow> nat option" where
  "find_str [] sub = (if sub = [] then Some 0 else None)"
| "find_str (c # cs) sub =
     (if startswith (c # cs) sub then Some 0 else map_option Suc (find_str cs sub))"

text \<open>
  \<open>s.split(sep)\<close> for a separator of any length: the occurrences of \<open>sep\<close> are taken
  from the left and do not overlap. Python raises \<open>ValueError\<close> on an empty separator;
  the separators of the source are non-empty constants.
\<close>

function split_str :: "pstr \<Rightarrow> pstr \<Rightarrow> pstr list" where
  "split_str sep s =
     (if sep = [] \<or> s = [] then [s]
      else if startswith s sep then [] # split_str sep (drop (length sep) s)
      else (case split_str sep (tl s) of
              [] \<Rightarrow> [[hd s]]
            | l # ls \<Rightarrow> (hd s # l) # ls))"
  by pat_completeness auto
termination
  by (relation "measure (\<lambda>(sep, s). length s)") auto

declare split_str.simps [simp del]

text \<open>
  \<open>d[k] = v\<close> on a dict kept as the list of its items in insertion order: an existing key
  keeps its place and takes the new value, a new key goes to the end.
\<close>

fun dict_set :: "('k \<times> 'v) list \<Rightarrow> 'k \<Rightarrow> 'v \<Rightarrow> ('k \<times> 'v) list" where
  "dict_set [] k v = [(k, v)]"
| "dict_set ((k', v') # d) k v = (if k' = k then (k, v) # d else (k', v') # dict_set d k v)"

section \<open>Regular expressions\<close>

text \<open>
  The patterns of the source, as Python's \<open>re\<close> module runs them: a backtracking matcher
  with ordered choice. \<open>Chr P\<close> is one character of the class \<open>P\<close> (a literal, \<open>\s\<close>,
  \<open>\d\<close>, \<open>.\<close> or a bracket class), \<open>Rep P mn greedy\<close> is \<open>mn\<close> or more characters of the
  class \<open>P\<close>, greedy (\<open>*\<close>, \<open>+\<close>) or lazy (\<open>*?\<close>, \<open>+?\<close>); every repetition in the source is
  over a single character class. \<open>Group g r\<close> is the capture group \<open>g\<close>, \<open>Look r\<close> the
  lookahead \<open>(?=r)\<close>, \<open>Bol\<close> is \<open>^\<close> under \<open>re.MULTILINE\<close> and \<open>Eos\<close> is \<open>\Z\<close>.
\<close>

datatype rx =
    Chr "pchar \<Rightarrow> bool"
  | Eps
  | Seq rx rx
  | Alt rx rx
  | Rep "pchar \<Rightarrow> bool" nat bool
  | Group nat rx
  | Look rx
  | Bol
  | Eos

text \<open>
  The state of a match attempt: the position in the text, the character before it (for
  \<open>^\<close>), the text from the position on, and the text captured by each group so far.
\<close>

record mstate =
  pos :: nat
  prev :: "pchar option"
  rest :: pstr
  groups :: "nat \<rightharpoonup> pstr"

definition advance :: "nat \<Rightarrow> mstate \<Rightarrow> mstate" where
  "advance j st =
     st\<lparr>pos := pos st + j,
        prev := (if j = 0 then prev st else Some (rest st ! (j - 1))),
        rest := drop j (rest st)\<rparr>"

text \<open>The first alternative that succeeds, in the order tried.\<close>

fun first_some :: "('a \<Rightarrow> 'b option) \<Rightarrow> 'a list \<Rightarrow> 'b option" where
  "first_some f [] = None"
| "first_some f (x # xs) = (case f x of Some r \<Rightarrow> Some r | None \<Rightarrow> first_some f xs)"

text \<open>
  \<open>rx_match r st k\<close> matches \<open>r\<close> at \<open>st\<close> and hands each way of matching it, in the order
  the backtracking engine tries them, to the continuation \<open>k\<close> (the rest of the pattern),
  until one succeeds. A greedy repetition tries the longest run first, a lazy one the
  shortest; a lookahead is tried once and consumes nothing.
\<close>

fun rx_match :: "rx \<Rightarrow> mstate \<Rightarrow> (mstate \<Rightarrow> mstate option) \<Rightarrow> mstate option" where
  "rx_match (Chr P) st k =
     (case rest st of
        [] \<Rightarrow> None
      | c # cs \<Rightarrow> if P c then k (advance 1 st) else None)"
| "rx_match Eps st k = k st"
| "rx_match (Seq a b) st k = rx_match a st (\<lambda>st'. rx_match b st' k)"
| "rx_match (Alt a b) st k =
     (case rx_match a st k of Some r \<Rightarrow> Some r | None \<Rightarrow> rx_match b st k)"
| "rx_match (Rep P mn greedy) st k =
     (let n = length (takeWhile P (rest st));
          counts = (if greedy then rev [mn ..< Suc n] else [mn ..< Suc n])
      in first_some (\<lambda>j. k (advance j st)) counts)"
| "rx_match (Group g r) st k =
     rx_match r st
       (\<lambda>st'. k (st'\<lparr>groups := (groups st')(g \<mapsto> take (pos st' - pos st) (rest st))\<rparr>))"
| "rx_match (Look r) st k =
     (case rx_match r st Some of None \<Rightarrow> None | Some _ \<Rightarrow> k st)"
| "rx_match Bol st k = (if prev st = None \<or> prev st = Some NL then k st else None)"
| "rx_match Eos st k = (if rest st = [] then k st else None)"

text \<open>
  \<open>re.search\<close>: the match at the leftmost start position that has one. The result is the
  state at the end of the match: \<open>pos\<close> is \<open>match.end()\<close>, \<open>match_group m g\<close> is
  \<open>match.group(g)\<close>.\<close>

fun search_from :: "rx \<Rightarrow> mstate \<Rightarrow> nat \<Rightarrow> mstate option" where
  "search_from r st 0 = rx_match r st Some"
| "search_from r st (Suc n) =
     (case rx_match r st Some of
        Some m \<Rightarrow> Some m
      | None \<Rightarrow> search_from r (advance 1 st) n)"

definition start_state :: "pstr \<Rightarrow> mstate" where
  "start_state s = \<lparr>pos = 0, prev = None, rest = s, groups = Map.empty\<rparr>"

definition search :: "rx \<Rightarrow> pstr \<Rightarrow> mstate option" where
  "search r s = search_from r (start_state s) (length s)"

definition match_group :: "mstate \<Rightarrow> nat \<Rightarrow> pstr" where
  "match_group m g = (case groups m g of None \<Rightarrow> [] | Some s \<Rightarrow> s)"

text \<open>
  \<open>re.findall\<close> for a pattern with one group: the group of each match, from left to
  right, each search starting where the match before it ended. Every pattern the source
  gives to \<open>findall\<close> consumes at least one character; after an empty match the search
  moves one character on.
\<close>

function findall_from :: "rx \<Rightarrow> mstate \<Rightarrow> pstr list" where
  "findall_from r st =
     (case search_from r st (length (rest st)) of
        None \<Rightarrow> []
      | Some m \<Rightarrow>
          match_group m 1 #
            (if length (rest m) < length (rest st) then findall_from r (m\<lparr>groups := Map.empty\<rparr>)
             else if rest st = [] then []
             else findall_from r (advance 1 st)))"
  by pat_completeness auto
termination
  by (relation "measure (\<lambda>(r, st). length (rest st))") (auto simp: advance_def)

declare findall_from.simps [simp del]

definition findall :: "rx \<Rightarrow> pstr \<Rightarrow> pstr list" where
  "findall r s = findall_from r (start_state s)"

text \<open>A sequence of patterns, and a literal text.\<close>

fun seq :: "rx list \<Rightarrow> rx" where
  "seq [] = Eps"
| "seq [r] = r"
| "seq (r # rs) = Seq r (seq rs)"

definition lit :: "pstr \<Rightarrow> rx" where
  "lit s = seq (map (\<lambda>c. Chr (\<lambda>x. x = c)) s)"

text \<open>\<open>.\<close> without \<open>re.DOTALL\<close>: any character but the newline.\<close>

definition dot :: "pchar \<Rightarrow> bool" where "dot c \<longleftrightarrow> c \<noteq> NL"

section \<open>The repository-dump parsers\<close>

text \<open>The pattern \<open>r"FILE: (.+?)\n"\<close> of analyzer.py and repository_parser.py.\<close>

definition file_rx :: rx where
  "file_rx = seq [lit (str ''FILE: ''), Group 1 (Rep dot 1 False), lit [NL]]"

text \<open>
  The exceptions the modelled functions can raise or catch. \<open>JSONDecodeError\<close> is a
  subclass of \<open>ValueError\<close>: \<open>except ValueError\<close> catches both, \<open>except
  json.JSONDecodeError\<close> catches the first only. \<open>ValueError\<close> stands for a \<open>ValueError\<close>
  that is not a \<open>JSONDecodeError\<close>.
\<close>

datatype py_exn =
    FileNotFoundError
  | IndexError
  | ValueError
  | JSONDecodeError
  | TypeError
  | OverflowError
  | RecursionError

subsection \<open>parse_repository_file of analyzer.py\<close>

text \<open>The delimiter, 48 characters \<open>=\<close>.\<close>

definition file_delimiter :: pstr where
  "file_delimiter = replicate 48 61"

text \<open>
  The loop \<open>for i in range(len(file_sections))\<close>: a section that contains \<open>"FILE: "\<close> is
  joined with the section after it, \<open>file_sections[i+1]\<close>, which raises \<open>IndexError\<close> when
  the section is the last one.
\<close>

fun filter_sections :: "pstr list \<Rightarrow> pstr list \<Rightarrow> py_exn + pstr list" where
  "filter_sections [] filtered = Inr filtered"
| "filter_sections (sec # later) filtered =
     (if contains sec (str ''FILE: '')
      then (case later of
              [] \<Rightarrow> Inl IndexError
            | nxt # _ \<Rightarrow> filter_sections later (filtered @ [sec @ nxt]))
      else filter_sections later filtered)"

text \<open>The loop \<open>for section in filtered_file_sections\<close> that fills \<open>repository_files\<close>.\<close>

fun process_sections :: "pstr list \<Rightarrow> (pstr \<times> pstr) list \<Rightarrow> (pstr \<times> pstr) list" where
  "process_sections [] repository_files = repository_files"
| "process_sections (section # sections) repository_files =
     (case search file_rx section of
        None \<Rightarrow> process_sections sections repository_files
      | Some file_match \<Rightarrow>
          let filename = strip (match_group file_match 1) in
          if filename = [] then process_sections sections repository_files
          else
            let content_start = pos file_match;
                file_content = strip (drop content_start section)
            in process_sections sections (dict_set repository_files filename file_content))"

text \<open>The optional \<open>Directory structure:\<close> preamble, dropped up to the first blank line.\<close>

definition skip_directory_structure :: "pstr \<Rightarrow> pstr" where
  "skip_directory_structure content =
     (if startswith content (str ''Directory structure:'')
      then (case find_str content [NL, NL] of
              None \<Rightarrow> content
            | Some structure_end_idx \<Rightarrow> drop (structure_end_idx + 2) content)
      else content)"

text \<open>
  The function on the outcome of reading the file: \<open>None\<close> when the path is not a file,
  else its text (decoded with \<open>errors='replace'\<close>, which cannot fail). The handler
  \<open>except Exception\<close> logs and re-raises.
\<close>

definition parse_repository_file_analyzer :: "pstr option \<Rightarrow> py_exn + (pstr \<times> pstr) list" where
  "parse_repository_file_analyzer file =
     (case file of
        None \<Rightarrow> Inl FileNotFoundError
      | Some content \<Rightarrow>
          if content = [] then Inr []
          else
            let content = skip_directory_structure content;
                file_sections = split_str file_delimiter content
            in case filter_sections file_sections [] of
                 Inl e \<Rightarrow> Inl e
               | Inr filtered_file_sections \<Rightarrow>
                   if filtered_file_sections = [] then Inr []
                   else Inr (process_sections filtered_file_sections []))"

subsection \<open>parse_repository_file of repository_parser.py\<close>

text \<open>
  The loop over the sections that contain \<open>"FILE: "\<close>; this variant keeps an empty file
  name.
\<close>

fun process_sections_parser :: "pstr list \<Rightarrow> (pstr \<times> pstr) list \<Rightarrow> (pstr \<times> pstr) list" where
  "process_sections_parser [] repository_files = repository_files"
| "process_sections_parser (section # sections) repository_files =
     (case search file_rx section of
        None \<Rightarrow> process_sections_parser sections repository_files
      | Some file_match \<Rightarrow>
          let filename = strip (match_group file_match 1);
              content_start = pos file_match;
              file_content = strip (drop content_start section)
          in process_sections_parser sections (dict_set repository_files filename file_content))"

text \<open>
  \<open>f.read()\<close> on a file opened with \<open>open(file_path, 'r', ...)\<close>: in text mode with the
  default \<open>newline=None\<close>, the line endings \<open>\r\n\<close> and \<open>\r\<close> of the file are read as
  \<open>\n\<close>.
\<close>

fun universal_newlines :: "pstr \<Rightarrow> pstr" where
  "universal_newlines [] = []"
| "universal_newlines [c] = (if c = CR then [NL] else [c])"
| "universal_newlines (c # d # cs) =
     (if c = CR \<and> d = NL then NL # universal_newlines cs
      else if c = CR then NL # universal_newlines (d # cs)
      else c # universal_newlines (d # cs))"

text \<open>
  The function on the text of the file, which it reads through \<open>universal_newlines\<close>.
  The \<open>Directory structure:\<close> preamble is only measured, not removed.
\<close>

definition parse_repository_file_parser :: "pstr \<Rightarrow> (pstr \<times> pstr) list" where
  "parse_repository_file_parser file_text =
     (let content = universal_newlines file_text;
          file_sections = split_str file_delimiter content;
          file_sections = filter (\<lambda>section. contains section (str ''FILE: '')) file_sections
      in process_sections_parser file_sections [])"

subsection \<open>The canonical delimiter format\<close>

text \<open>
  Modelled from the spec: the repository has no serializer; the round-trip property of
  the specification names one that "emits the canonical delimiter format", described as
  sections separated by a line of repeated \<open>=\<close> characters, each section beginning with
  \<open>FILE: <relative-path>\<close> followed by the file content up to the next delimiter. The
  delimiter line is the one of the parsers, 48 characters \<open>=\<close>.
\<close>

definition spec_serialize :: "(pstr \<times> pstr) list \<Rightarrow> pstr" where
  "spec_serialize dump =
     join ([NL] @ file_delimiter @ [NL])
       (map (\<lambda>(path, content). str ''FILE: '' @ path @ [NL] @ content) dump)"

text \<open>
  The dumps that survive the round trip: the parser reads every carriage return as a
  newline, strips the path and the content and cuts at every delimiter, so neither may
  hold a carriage return, start or end with white space or contain the delimiter, and the
  path stands on one line.
\<close>

definition valid_path :: "pstr \<Rightarrow> bool" where
  "valid_path path \<longleftrightarrow>
     path \<noteq> [] \<and> NL \<notin> set path \<and> CR \<notin> set path \<and> strip path = path
     \<and> \<not> contains path file_delimiter"

definition valid_content :: "pstr \<Rightarrow> bool" where
  "valid_content content \<longleftrightarrow>
     CR \<notin> set content \<and> strip content = content \<and> \<not> contains content file_delimiter"

definition valid_dump :: "(pstr \<times> pstr) list \<Rightarrow> bool" where
  "valid_dump dump \<longleftrightarrow>
     distinct (map fst dump)
     \<and> list_all (\<lambda>(path, content). valid_path path \<and> valid_content content) dump"

section \<open>Diff synthesis from a dump (main.py)\<close>

text \<open>
  A \<open>Dict[str, str]\<close> is iterated in insertion order, so the mapping is an association
  list. The body of the \<open>for file_path, content in repository_files.items()\<close> loop of
  \<open>generate_diff_content\<close> appends to \<open>diff_parts\<close>; \<open>diff_loop\<close> is the loop,
  \<open>diff_parts\<close> its accumulator.
\<close>

definition plus_lines :: "pstr list \<Rightarrow> pstr list" where
  "plus_lines file_lines = map (\<lambda>line. str ''+'' @ rstrip_chars [CR, NL] line) file_lines"

fun diff_loop :: "(pstr \<times> pstr) list \<Rightarrow> pstr list \<Rightarrow> pstr list" where
  "diff_loop [] diff_parts = diff_parts"
| "diff_loop ((file_path, content) # items) diff_parts =
     (let diff_parts = diff_parts @ [str ''--- a/'' @ file_path];
          diff_parts = diff_parts @ [str ''+++ b/'' @ file_path];
          file_lines = split_chr NL content;
          diff_parts = diff_parts @ [str ''@@ -0,0 +1,'' @ str_of_nat (length file_lines) @ str '' @@''];
          diff_parts = diff_parts @ plus_lines file_lines;
          diff_parts = diff_parts @ [[]]
      in diff_loop items diff_parts)"

definition generate_diff_content :: "(pstr \<times> pstr) list \<Rightarrow> pstr" where
  "generate_diff_content repository_files =
     (if repository_files = [] then []
      else join [NL] (diff_loop repository_files []))"

section \<open>Diff synthesis from a dump, binary-skipping variant (analyzer.py)\<close>

text \<open>
  \<open>str.isprintable()\<close>: every character is printable. Below 128 the printable characters
  are 32 to 126; for the others the answer is a column of the Unicode character database,
  taken as the parameter \<open>uni_printable\<close>.
\<close>

definition isprintable :: "(pchar \<Rightarrow> bool) \<Rightarrow> pstr \<Rightarrow> bool" where
  "isprintable uni_printable s =
     list_all (\<lambda>c. if c < 128 then 32 \<le> c \<and> c < 127 else uni_printable c) s"

text \<open>The text \<open>"\n[... TRUNCATED DUE TO SIZE ...]"\<close> appended at both truncations.\<close>

definition truncation_marker :: pstr where
  "truncation_marker = [NL] @ str ''[... TRUNCATED DUE TO SIZE ...]''"

text \<open>The inner loop \<open>for line in file_lines: diff_content += f"+{line}\n"\<close>.\<close>

fun add_lines :: "pstr list \<Rightarrow> pstr \<Rightarrow> pstr" where
  "add_lines [] diff_content = diff_content"
| "add_lines (line # file_lines) diff_content =
     add_lines file_lines (diff_content @ str ''+'' @ line @ [NL])"

text \<open>The loop over \<open>repository_files.items()\<close>; \<open>continue\<close> skips a file.\<close>

fun diff_loop_analyzer :: "(pchar \<Rightarrow> bool) \<Rightarrow> (pstr \<times> pstr) list \<Rightarrow> pstr \<Rightarrow> pstr" where
  "diff_loop_analyzer up [] diff_content = diff_content"
| "diff_loop_analyzer up ((file_path, content) # items) diff_content =
     (if 0 \<in> set content \<or> \<not> isprintable up content
      then diff_loop_analyzer up items diff_content
      else
        let content = (if length content > 10000
                       then take 10000 content @ truncation_marker else content);
            file_lines = split_chr NL content;
            diff_content = diff_content @ str ''--- /dev/null'' @ [NL]
                             @ str ''+++ b/'' @ file_path @ [NL];
            diff_content = diff_content @ str ''@@ -0,0 +1,'' @ str_of_nat (length file_lines)
                             @ str '' @@'' @ [NL];
            diff_content = add_lines file_lines diff_content;
            diff_content = diff_content @ [NL]
        in diff_loop_analyzer up items diff_content)"

definition generate_diff_content_analyzer :: "(pchar \<Rightarrow> bool) \<Rightarrow> (pstr \<times> pstr) list \<Rightarrow> pstr" where
  "generate_diff_content_analyzer up repository_files =
     (if repository_files = [] then []
      else
        let diff_content = diff_loop_analyzer up repository_files [];
            diff_content = (if length diff_content > 100000
                            then take 100000 diff_content @ truncation_marker
                            else diff_content)
        in diff_content)"

text \<open>
  The text the loop body adds for one file whose content passed the binary check and the
  size limit (lines 140 to 148), used to state what the loop computes.
\<close>

definition file_diff_text :: "pstr \<Rightarrow> pstr \<Rightarrow> pstr" where
  "file_diff_text path content =
     str ''--- /dev/null'' @ [NL] @ str ''+++ b/'' @ path @ [NL]
     @ str ''@@ -0,0 +1,'' @ str_of_nat (Suc (count_list content NL)) @ str '' @@'' @ [NL]
     @ concat (map (\<lambda>line. str ''+'' @ line @ [NL]) (split_chr NL content))
     @ [NL]"

section \<open>The response normalizer (app/modules/analyzer.py)\<close>

subsection \<open>Values\<close>

text \<open>
  A Python \<open>float\<close>: a finite value, an infinity or a NaN. A finite float is modelled by
  the real number it denotes, a binary64 number.
\<close>

datatype pyfloat = PyFloat real | PyInf | PyNegInf | PyNaN

text \<open>
  What \<open>json.loads\<close> returns: \<open>None\<close>, a \<open>bool\<close>, an \<open>int\<close> (unbounded), a \<open>float\<close>, a
  \<open>str\<close>, a \<open>list\<close> or a \<open>dict\<close> (the list of its items, keys distinct).
\<close>

datatype json =
    JNull
  | JBool bool
  | JInt int
  | JFloat pyfloat
  | JStr pstr
  | JList "json list"
  | JObj "(pstr \<times> json) list"

text \<open>
  The library functions the normalizer calls, as parameters:
  \<^item> \<open>json_loads\<close> is \<open>json.loads\<close>: the value, or the exception it raises, which is
    \<open>JSONDecodeError\<close> on a text that is not JSON, and can also be \<open>RecursionError\<close> (deep
    nesting) or \<open>ValueError\<close> (an integer literal beyond the digit limit of \<open>int\<close>);
  \<^item> \<open>float_other\<close> is \<open>float(s)\<close> on a text \<open>s\<close> that is not a plain ASCII decimal
    (signs, exponents, \<open>inf\<close>, \<open>nan\<close>, surrounding white space, non-ASCII digits), with
    \<open>None\<close> for \<open>ValueError\<close>;
  \<^item> \<open>round_float\<close> rounds a real number within the range of \<open>float\<close> to the nearest
    binary64 number (ties to even), as \<open>float\<close> does with an \<open>int\<close> and with a decimal
    text;
  \<^item> \<open>uni_decimal\<close> tells which code points above 127 are decimal digits for \<open>\d\<close>.
\<close>

record pylib =
  json_loads :: "pstr \<Rightarrow> py_exn + json"
  float_other :: "pstr \<Rightarrow> pyfloat option"
  round_float :: "real \<Rightarrow> real"
  uni_decimal :: "pchar \<Rightarrow> bool"

text \<open>
  The model reply \<open>response\<close>: the value under the key \<open>"error"\<close> if the key is there, and
  \<open>response.get("result", {}).get("alternatives", [])\<close>. An alternative is a dict with a
  \<open>message\<close> dict that has a \<open>text\<close>, a dict with a \<open>text\<close>, another dict (with its
  \<open>str()\<close>), an object with a \<open>text\<close> attribute, or anything else (with its \<open>str()\<close>).
\<close>

datatype alternative =
    DictMessageText pstr
  | DictText pstr
  | DictOther pstr
  | ObjText pstr
  | AltOther pstr

record response =
  resp_error :: "pstr option"
  resp_alternatives :: "alternative list"

text \<open>The result dict; \<open>error = None\<close> when the key \<open>"error"\<close> is not set.\<close>

record analysis =
  quality_issues :: "json list"
  good_practices :: "json list"
  patterns :: "json list"
  anti_patterns :: "json list"
  overall_score :: "pyfloat option"
  raw_response :: pstr
  error :: "pstr option"

subsection \<open>float()\<close>

text \<open>
  The least magnitude that no longer rounds to a finite binary64 value: halfway between
  the largest finite float and \<open>2 ^ 1024\<close>. \<open>float(n)\<close> raises \<open>OverflowError\<close> on an
  \<open>int\<close> from there on; \<open>float(s)\<close> on a decimal text returns \<open>inf\<close>.
\<close>

definition float_limit :: int where
  "float_limit = 2 ^ 1024 - 2 ^ 970"

definition ascii_digit :: "pchar \<Rightarrow> bool" where
  "ascii_digit c \<longleftrightarrow> 48 \<le> c \<and> c \<le> 57"

definition digits_value :: "pstr \<Rightarrow> nat" where
  "digits_value s = foldl (\<lambda>n c. 10 * n + (c - 48)) 0 s"

definition is_digits :: "pstr \<Rightarrow> bool" where
  "is_digits s \<longleftrightarrow> s \<noteq> [] \<and> list_all ascii_digit s"

text \<open>The value of a text of the form \<open>digits\<close> or \<open>digits.digits\<close>.\<close>

definition decimal_value :: "pstr \<Rightarrow> real option" where
  "decimal_value s =
     (case split_chr 46 s of
        [a] \<Rightarrow> if is_digits a then Some (real (digits_value a)) else None
      | [a, b] \<Rightarrow>
          if is_digits a \<and> is_digits b
          then Some (real (digits_value a) + real (digits_value b) / 10 ^ length b)
          else None
      | _ \<Rightarrow> None)"

definition float_of_str :: "pylib \<Rightarrow> pstr \<Rightarrow> pyfloat option" where
  "float_of_str lib s =
     (case decimal_value s of
        Some x \<Rightarrow>
          Some (if real_of_int float_limit \<le> x then PyInf else PyFloat (round_float lib x))
      | None \<Rightarrow> float_other lib s)"

text \<open>\<open>float(v)\<close> on a value that \<open>json.loads\<close> returned.\<close>

fun py_float :: "pylib \<Rightarrow> json \<Rightarrow> py_exn + pyfloat" where
  "py_float lib (JInt n) =
     (if float_limit \<le> \<bar>n\<bar> then Inl OverflowError
      else Inr (PyFloat (round_float lib (real_of_int n))))"
| "py_float lib (JFloat x) = Inr x"
| "py_float lib (JBool b) = Inr (PyFloat (if b then 1 else 0))"
| "py_float lib (JStr s) =
     (case float_of_str lib s of None \<Rightarrow> Inl ValueError | Some x \<Rightarrow> Inr x)"
| "py_float lib JNull = Inl TypeError"
| "py_float lib (JList xs) = Inl TypeError"
| "py_float lib (JObj d) = Inl TypeError"

subsection \<open>The patterns\<close>

text \<open>
  A literal under \<open>re.IGNORECASE\<close>: the text character matches when its lowercase is the
  lowercase of the pattern character; for the pattern letters \<open>i\<close>, \<open>s\<close> and \<open>k\<close> the
  characters U+0130, U+0131, U+017F and U+212A match as well.
\<close>

definition lower_ascii :: "pchar \<Rightarrow> pchar" where
  "lower_ascii c = (if 65 \<le> c \<and> c \<le> 90 then c + 32 else c)"

definition ci :: "pchar \<Rightarrow> pchar \<Rightarrow> bool" where
  "ci p x \<longleftrightarrow>
     lower_ascii x = lower_ascii p
     \<or> (lower_ascii p = 105 \<and> (x = 304 \<or> x = 305))
     \<or> (lower_ascii p = 115 \<and> x = 383)
     \<or> (lower_ascii p = 107 \<and> x = 8490)"

definition lit_i :: "pstr \<Rightarrow> rx" where
  "lit_i s = seq (map (\<lambda>c. Chr (ci c)) s)"

text \<open>\<open>.\<close> under \<open>re.DOTALL\<close>, \<open>\d\<close>, and \<open>r?\<close>.\<close>

definition any_char :: "pchar \<Rightarrow> bool" where
  "any_char c \<longleftrightarrow> True"

definition digit :: "pylib \<Rightarrow> pchar \<Rightarrow> bool" where
  "digit lib c \<longleftrightarrow> ascii_digit c \<or> (128 \<le> c \<and> uni_decimal lib c)"

definition opt :: "rx \<Rightarrow> rx" where
  "opt r = Alt r Eps"

text \<open>\<^verbatim>\<open>r"```json\s*(\{.*?\})\s*```"\<close> with \<open>re.DOTALL\<close>.\<close>

definition json_block_rx :: rx where
  "json_block_rx =
     seq [lit (str ''```json''), Rep isspace 0 True,
          Group 1 (seq [lit (str ''{''), Rep any_char 0 False, lit (str ''}'')]),
          Rep isspace 0 True, lit (str ''```'')]"

text \<open>
  \<^verbatim>\<open>r"1\.\s*Code quality issues:?\s*\n(.*?)(?=\n\s*2\.|\Z)"\<close> and
  \<^verbatim>\<open>r"2\.\s*Good practices:?\s*\n(.*?)(?=\n\s*3\.|\Z)"\<close>, both with
  \<open>re.DOTALL | re.IGNORECASE\<close>.
\<close>

definition section_rx :: "pstr \<Rightarrow> pstr \<Rightarrow> pstr \<Rightarrow> rx" where
  "section_rx number title next_number =
     seq [lit_i number, Rep isspace 0 True, lit_i title, opt (lit_i (str '':'')),
          Rep isspace 0 True, lit_i [NL],
          Group 1 (Rep any_char 0 False),
          Look (Alt (seq [lit_i [NL], Rep isspace 0 True, lit_i next_number]) Eos)]"

definition quality_rx :: rx where
  "quality_rx = section_rx (str ''1.'') (str ''Code quality issues'') (str ''2.'')"

definition practices_rx :: rx where
  "practices_rx = section_rx (str ''2.'') (str ''Good practices'') (str ''3.'')"

text \<open>
  \<^verbatim>\<open>r"^\s*[-*]\s+(.*)"\<close> (the class also holds the bullet U+2022) and
  \<^verbatim>\<open>r"^\s*\d+\.\s+(.*)"\<close>, both with \<open>re.MULTILINE\<close>.
\<close>

definition bullet_rx :: rx where
  "bullet_rx =
     seq [Bol, Rep isspace 0 True, Chr (\<lambda>c. c = 45 \<or> c = 8226 \<or> c = 42),
          Rep isspace 1 True, Group 1 (Rep dot 0 True)]"

definition numbered_rx :: "pylib \<Rightarrow> rx" where
  "numbered_rx lib =
     seq [Bol, Rep isspace 0 True, Rep (digit lib) 1 True, lit (str ''.''),
          Rep isspace 1 True, Group 1 (Rep dot 0 True)]"

text \<open>
  \<^verbatim>\<open>r"3\.\s*Overall quality score:?\s*.*?(\d+(?:\.\d+)?)\s*(?:/|out of)\s*10"\<close> with
  \<open>re.DOTALL | re.IGNORECASE\<close>.
\<close>

definition score_rx :: "pylib \<Rightarrow> rx" where
  "score_rx lib =
     seq [lit_i (str ''3.''), Rep isspace 0 True, lit_i (str ''Overall quality score''),
          opt (lit_i (str '':'')), Rep isspace 0 True, Rep any_char 0 False,
          Group 1 (seq [Rep (digit lib) 1 True,
                        opt (seq [lit_i (str ''.''), Rep (digit lib) 1 True])]),
          Rep isspace 0 True, Alt (lit_i (str ''/'')) (lit_i (str ''out of'')),
          Rep isspace 0 True, lit_i (str ''10'')]"

subsection \<open>parse_analysis_response\<close>

text \<open>The text of the first alternative (lines 293 to 306).\<close>

fun alternative_message :: "alternative \<Rightarrow> pstr" where
  "alternative_message (DictMessageText text) = text"
| "alternative_message (DictText text) = text"
| "alternative_message (DictOther repr) = repr"
| "alternative_message (ObjText text) = text"
| "alternative_message (AltOther repr) = repr"

text \<open>The result with empty lists and no score, as built at lines 282, 309 and 316.\<close>

definition empty_analysis :: "pstr \<Rightarrow> pstr option \<Rightarrow> analysis" where
  "empty_analysis raw err =
     \<lparr>quality_issues = [], good_practices = [], patterns = [], anti_patterns = [],
      overall_score = None, raw_response = raw, error = err\<rparr>"

text \<open>Lines 327 to 332: the message without its \<^verbatim>\<open>```json\<close> fence.\<close>

definition clean_message :: "pstr \<Rightarrow> pstr" where
  "clean_message message =
     (let cleaned_message = strip message in
      if startswith cleaned_message (str ''```json'')
      then
        let cleaned_message = drop 7 cleaned_message;
            cleaned_message =
              (if endswith cleaned_message (str ''```'')
               then take (length cleaned_message - 3) cleaned_message
               else cleaned_message)
        in strip cleaned_message
      else cleaned_message)"

text \<open>
  \<open>json.loads\<close> under \<open>except json.JSONDecodeError\<close>, whose handler sets \<open>parsed_json =
  None\<close>: every other exception leaves the function. The value \<open>JNull\<close> is Python's
  \<open>None\<close>.
\<close>

definition try_loads :: "pylib \<Rightarrow> pstr \<Rightarrow> py_exn + json" where
  "try_loads lib text =
     (case json_loads lib text of
        Inl JSONDecodeError \<Rightarrow> Inr JNull
      | Inl e \<Rightarrow> Inl e
      | Inr v \<Rightarrow> Inr v)"

text \<open>
  Lines 325 to 341: the first tier, \<open>json.loads\<close> on the cleaned message; the result is
  the value of \<open>parsed_json\<close>.
\<close>

definition direct_json :: "pylib \<Rightarrow> pstr \<Rightarrow> py_exn + json" where
  "direct_json lib message =
     (let cleaned_message = clean_message message in
      if startswith cleaned_message (str ''{'') \<and> endswith cleaned_message (str ''}'')
      then try_loads lib cleaned_message
      else Inr JNull)"

text \<open>Lines 343 to 354: the second tier, a fenced block anywhere in the message.\<close>

definition block_json :: "pylib \<Rightarrow> pstr \<Rightarrow> py_exn + json" where
  "block_json lib message =
     (case search json_block_rx message of
        None \<Rightarrow> Inr JNull
      | Some json_match \<Rightarrow> try_loads lib (match_group json_match 1))"

text \<open>The value of \<open>parsed_json\<close> after both tiers (\<open>if parsed_json is None\<close>, line 343).\<close>

definition parsed_json :: "pylib \<Rightarrow> pstr \<Rightarrow> py_exn + json" where
  "parsed_json lib message =
     (case direct_json lib message of
        Inl e \<Rightarrow> Inl e
      | Inr JNull \<Rightarrow> block_json lib message
      | Inr v \<Rightarrow> Inr v)"

text \<open>\<open>parsed_json.get(key, [])\<close>, reset to \<open>[]\<close> when it is not a list (lines 369 to 372).\<close>

definition list_field :: "(pstr \<times> json) list \<Rightarrow> pstr \<Rightarrow> json list" where
  "list_field d key =
     (case map_of d key of
        None \<Rightarrow> []
      | Some (JList xs) \<Rightarrow> xs
      | Some _ \<Rightarrow> [])"

text \<open>
  Lines 361 to 368: the score. \<open>ValueError\<close> (with its subclasses) and \<open>TypeError\<close> are
  caught and give no score; any other exception of \<open>float\<close> leaves the function.
\<close>

definition score_field :: "pylib \<Rightarrow> (pstr \<times> json) list \<Rightarrow> py_exn + pyfloat option" where
  "score_field lib d =
     (case map_of d (str ''overall_score'') of
        None \<Rightarrow> Inr None
      | Some JNull \<Rightarrow> Inr None
      | Some score_val \<Rightarrow>
          (case py_float lib score_val of
             Inr x \<Rightarrow> Inr (Some x)
           | Inl ValueError \<Rightarrow> Inr None
           | Inl JSONDecodeError \<Rightarrow> Inr None
           | Inl TypeError \<Rightarrow> Inr None
           | Inl e \<Rightarrow> Inl e))"

text \<open>Lines 379 to 382 and 386 to 389: the items of a section of prose.\<close>

definition section_items :: "pylib \<Rightarrow> pstr \<Rightarrow> json list" where
  "section_items lib section_text =
     (let items = findall bullet_rx section_text;
          items = (if items = [] then findall (numbered_rx lib) section_text else items)
      in map JStr (filter (\<lambda>item. item \<noteq> []) (map strip items)))"

text \<open>Lines 374 to 399: the third tier, on the raw message.\<close>

definition regex_fallback :: "pylib \<Rightarrow> pstr \<Rightarrow> analysis \<Rightarrow> analysis" where
  "regex_fallback lib message analysis =
     (let analysis =
            (case search quality_rx message of
               None \<Rightarrow> analysis
             | Some quality_match \<Rightarrow>
                 analysis\<lparr>quality_issues := section_items lib (strip (match_group quality_match 1))\<rparr>);
          analysis =
            (case search practices_rx message of
               None \<Rightarrow> analysis
             | Some practices_match \<Rightarrow>
                 analysis\<lparr>good_practices := section_items lib (strip (match_group practices_match 1))\<rparr>);
          analysis =
            (case search (score_rx lib) message of
               None \<Rightarrow> analysis
             | Some score_match \<Rightarrow>
                 analysis\<lparr>overall_score := float_of_str lib (match_group score_match 1)\<rparr>)
      in analysis)"

definition parse_analysis_response :: "pylib \<Rightarrow> response \<Rightarrow> py_exn + analysis" where
  "parse_analysis_response lib response =
     (case resp_error response of
        Some e \<Rightarrow> Inr (empty_analysis (str ''API Error: '' @ e) (Some (str ''API Error: '' @ e)))
      | None \<Rightarrow>
         (case resp_alternatives response of
            [] \<Rightarrow> Inr (empty_analysis (str ''API response contained no alternatives.'')
                         (Some (str ''API response contained no alternatives.'')))
          | first_alt # _ \<Rightarrow>
              let message = alternative_message first_alt;
                  analysis = empty_analysis message None
              in case parsed_json lib message of
                   Inl e \<Rightarrow> Inl e
                 | Inr (JObj d) \<Rightarrow>
                     (case score_field lib d of
                        Inl e \<Rightarrow> Inl e
                      | Inr score \<Rightarrow>
                          Inr (analysis
                                \<lparr>quality_issues := list_field d (str ''quality_issues''),
                                 good_practices := list_field d (str ''good_practices''),
                                 patterns := list_field d (str ''patterns''),
                                 anti_patterns := list_field d (str ''anti_patterns''),
                                 overall_score := score\<rparr>))
                 | Inr _ \<Rightarrow> Inr (regex_fallback lib message analysis)))"

subsection \<open>An instance of the library\<close>

text \<open>
  \<open>json.loads\<close> on a text of the JSON grammar, for evaluating the normalizer on concrete
  replies: white space, objects, arrays, strings with their escapes, numbers and the
  constants, \<open>NaN\<close> and the infinities included. A repeated key keeps its first place and
  takes the last value, as in a Python dict. A text that is not JSON raises
  \<open>JSONDecodeError\<close>; an integer literal of more than 4300 digits raises \<open>ValueError\<close>
  when it is read (the default digit limit of \<open>int\<close>, Python 3.11). The recursion is
  bounded by the length of the text; the \<open>RecursionError\<close> of deep nesting is not
  modelled. A pair of surrogate escapes is not joined into one character.
\<close>

definition json_skip :: "pstr \<Rightarrow> pstr" where
  "json_skip s = dropWhile (\<lambda>c. c = 32 \<or> c = 9 \<or> c = 10 \<or> c = 13) s"

definition hex_value :: "pchar \<Rightarrow> nat option" where
  "hex_value c =
     (if 48 \<le> c \<and> c \<le> 57 then Some (c - 48)
      else if 97 \<le> c \<and> c \<le> 102 then Some (c - 87)
      else if 65 \<le> c \<and> c \<le> 70 then Some (c - 55)
      else None)"

definition json_escape :: "pchar \<Rightarrow> pchar option" where
  "json_escape e =
     (if e = 34 \<or> e = 92 \<or> e = 47 then Some e
      else if e = 98 then Some 8
      else if e = 102 then Some 12
      else if e = 110 then Some 10
      else if e = 114 then Some 13
      else if e = 116 then Some 9
      else None)"

definition cons_result :: "pchar \<Rightarrow> (pstr \<times> pstr) option \<Rightarrow> (pstr \<times> pstr) option" where
  "cons_result c res = map_option (\<lambda>(t, r). (c # t, r)) res"

text \<open>The characters of a string up to its closing quote, and the text after it.\<close>

fun scan_string :: "pstr \<Rightarrow> (pstr \<times> pstr) option" where
  "scan_string [] = None"
| "scan_string (c # cs) =
     (if c = 34 then Some ([], cs)
      else if c = 92 then
        (case cs of
           [] \<Rightarrow> None
         | e # r \<Rightarrow>
             if e = 117 then
               (case r of
                  a # b # c # d # r' \<Rightarrow>
                    (case (hex_value a, hex_value b, hex_value c, hex_value d) of
                       (Some h3, Some h2, Some h1, Some h0) \<Rightarrow>
                         cons_result (4096 * h3 + 256 * h2 + 16 * h1 + h0) (scan_string r')
                     | _ \<Rightarrow> None)
                | _ \<Rightarrow> None)
             else
               (case json_escape e of
                  None \<Rightarrow> None
                | Some x \<Rightarrow> cons_result x (scan_string r)))
      else if c < 32 then None
      else cons_result c (scan_string cs))"

text \<open>
  A number: \<open>-?(0|[1-9][0-9]*)\<close>, then an optional fraction and exponent. Without
  fraction and exponent it is an \<open>int\<close>, else a \<open>float\<close>, taken here without rounding.
\<close>

definition to_float :: "real \<Rightarrow> pyfloat" where
  "to_float x =
     (if real_of_int float_limit \<le> x then PyInf
      else if x \<le> - real_of_int float_limit then PyNegInf
      else PyFloat x)"

definition scan_number :: "pstr \<Rightarrow> py_exn + json \<times> pstr" where
  "scan_number s =
     (let negative = startswith s (str ''-'');
          s1 = (if negative then drop 1 s else s);
          int_part = (if startswith s1 (str ''0'') then take 1 s1 else takeWhile ascii_digit s1);
          s2 = drop (length int_part) s1;
          frac = (case s2 of
                    [] \<Rightarrow> []
                  | c # r \<Rightarrow> if c = 46 \<and> takeWhile ascii_digit r \<noteq> []
                            then takeWhile ascii_digit r else []);
          s3 = (if frac = [] then s2 else drop (Suc (length frac)) s2);
          exp_sign = (case s3 of
                        e # sg # r \<Rightarrow>
                          if (e = 101 \<or> e = 69) \<and> (sg = 43 \<or> sg = 45) then [sg] else []
                      | _ \<Rightarrow> []);
          exp_digits = (case s3 of
                          [] \<Rightarrow> []
                        | e # r \<Rightarrow>
                            if e = 101 \<or> e = 69
                            then takeWhile ascii_digit (drop (length exp_sign) r) else []);
          s4 = (if exp_digits = [] then s3
                else drop (Suc (length exp_sign + length exp_digits)) s3);
          sign = (if negative then - 1 else 1)
      in if int_part = [] then Inl JSONDecodeError
         else if frac = [] \<and> exp_digits = []
         then (if 4300 < length int_part then Inl ValueError
               else Inr (JInt (sign * int (digits_value int_part)), s4))
         else
           let mantissa = real (digits_value int_part)
                            + real (digits_value frac) / 10 ^ length frac;
               scale = (if exp_sign = [45] then 1 / 10 ^ digits_value exp_digits
                        else 10 ^ digits_value exp_digits)
           in Inr (JFloat (to_float (sign * mantissa * scale)), s4))"

definition string_token :: "(pstr \<times> pstr) option \<Rightarrow> py_exn + json \<times> pstr" where
  "string_token res =
     (case res of None \<Rightarrow> Inl JSONDecodeError | Some (t, r) \<Rightarrow> Inr (JStr t, r))"

fun parse_value :: "nat \<Rightarrow> pstr \<Rightarrow> py_exn + json \<times> pstr"
  and parse_elements :: "nat \<Rightarrow> pstr \<Rightarrow> json list \<Rightarrow> py_exn + json \<times> pstr"
  and parse_members :: "nat \<Rightarrow> pstr \<Rightarrow> (pstr \<times> json) list \<Rightarrow> py_exn + json \<times> pstr"
where
  "parse_value 0 s = Inl JSONDecodeError"
| "parse_value (Suc n) s =
     (case s of
        [] \<Rightarrow> Inl JSONDecodeError
      | c # cs \<Rightarrow>
          if c = 34 then string_token (scan_string cs)
          else if c = 123 then
            (if startswith (json_skip cs) (str ''}'')
             then Inr (JObj [], drop 1 (json_skip cs))
             else parse_members n (json_skip cs) [])
          else if c = 91 then
            (if startswith (json_skip cs) (str '']'')
             then Inr (JList [], drop 1 (json_skip cs))
             else parse_elements n (json_skip cs) [])
          else if startswith s (str ''null'') then Inr (JNull, drop 4 s)
          else if startswith s (str ''true'') then Inr (JBool True, drop 4 s)
          else if startswith s (str ''false'') then Inr (JBool False, drop 5 s)
          else if startswith s (str ''NaN'') then Inr (JFloat PyNaN, drop 3 s)
          else if startswith s (str ''Infinity'') then Inr (JFloat PyInf, drop 8 s)
          else if startswith s (str ''-Infinity'') then Inr (JFloat PyNegInf, drop 9 s)
          else scan_number s)"
| "parse_elements 0 s acc = Inl JSONDecodeError"
| "parse_elements (Suc n) s acc =
     (case parse_value n s of
        Inl e \<Rightarrow> Inl e
      | Inr (v, r) \<Rightarrow>
          (case json_skip r of
             [] \<Rightarrow> Inl JSONDecodeError
           | c # r' \<Rightarrow>
               if c = 44 then parse_elements n (json_skip r') (acc @ [v])
               else if c = 93 then Inr (JList (acc @ [v]), r')
               else Inl JSONDecodeError))"
| "parse_members 0 s acc = Inl JSONDecodeError"
| "parse_members (Suc n) s acc =
     (case s of
        [] \<Rightarrow> Inl JSONDecodeError
      | q # cs \<Rightarrow>
          if q \<noteq> 34 then Inl JSONDecodeError
          else
            (case scan_string cs of
               None \<Rightarrow> Inl JSONDecodeError
             | Some (key, r) \<Rightarrow>
                 (case json_skip r of
                    [] \<Rightarrow> Inl JSONDecodeError
                  | colon # r1 \<Rightarrow>
                      if colon \<noteq> 58 then Inl JSONDecodeError
                      else
                        (case parse_value n (json_skip r1) of
                           Inl e \<Rightarrow> Inl e
                         | Inr (v, r2) \<Rightarrow>
                             (case json_skip r2 of
                                [] \<Rightarrow> Inl JSONDecodeError
                              | c # r3 \<Rightarrow>
                                  if c = 44 then parse_members n (json_skip r3) (dict_set acc key v)
                                  else if c = 125 then Inr (JObj (dict_set acc key v), r3)
                                  else Inl JSONDecodeError)))))"

definition py_json_loads :: "pstr \<Rightarrow> py_exn + json" where
  "py_json_loads s =
     (case parse_value (Suc (length s)) (json_skip s) of
        Inl e \<Rightarrow> Inl e
      | Inr (v, r) \<Rightarrow> if json_skip r = [] then Inr v else Inl JSONDecodeError)"

text \<open>
  The instance: \<open>py_json_loads\<close>, no decimal digit above 127, \<open>float\<close> accepting plain
  decimals only, and no rounding. It agrees with Python on replies in ASCII whose numbers
  are binary64 numbers (as 2, 7.5 and 15 are) and whose \<open>overall_score\<close>, when a string,
  is a plain decimal.
\<close>

definition ascii_lib :: pylib where
  "ascii_lib = \<lparr>json_loads = py_json_loads, float_other = (\<lambda>s. None),
                 round_float = (\<lambda>x. x), uni_decimal = (\<lambda>c. False)\<rparr>"

definition reply :: "pstr \<Rightarrow> response" where
  "reply text = \<lparr>resp_error = None, resp_alternatives = [ObjText text]\<rparr>"

subsection \<open>Example replies\<close>

text \<open>
  The reply of end-to-end scenario 2 of the specification: a JSON object between a
  \<^verbatim>\<open>```json\<close> fence and its closing fence.
\<close>

definition scenario_json :: pstr where
  "scenario_json = str ''{\"quality_issues\":[\"X\"],\"good_practices\":[],\"patterns\":[],\"anti_patterns\":[],\"overall_score\":7.5}''"

definition scenario_reply :: pstr where
  "scenario_reply = str ''```json'' @ [NL] @ scenario_json @ [NL] @ str ''```''"

text \<open>A reply in prose, as in end-to-end scenario 3.\<close>

definition plain_prose :: pstr where
  "plain_prose = str ''Looks fine to me, nothing to report.''"

text \<open>A JSON object whose score is the integer 1 followed by 400 zeros.\<close>

definition big_int_text :: pstr where
  "big_int_text = 49 # replicate 400 48"

definition big_score_reply :: pstr where
  "big_score_reply = str ''{\"overall_score\": '' @ big_int_text @ str ''}''"

text \<open>A dump of two files.\<close>

definition two_files :: "(pstr \<times> pstr) list" where
  "two_files = [(str ''a.py'', str ''print(1)''),
                (str ''src/b.py'', str ''x = 2'' @ [NL] @ str ''y = 3'')]"

text \<open>
  A reply that is not JSON (an \<open>x\<close> stands before the closing brace) and whose integer
  literal has 4301 digits, 1 followed by 4300 zeros.
\<close>

definition long_int_text :: pstr where
  "long_int_text = 49 # replicate 4300 48"

definition long_int_reply :: pstr where
  "long_int_reply = str ''{\"a\": '' @ long_int_text @ str '' x}''"

text \<open>A reply with a fenced JSON object of score 2 and, after it, a prose score of 9.\<close>

definition mixed_reply :: pstr where
  "mixed_reply = str ''```json'' @ [NL] @ str ''{\"overall_score\": 2}'' @ [NL] @ str ''```'' @ [NL]
                 @ str ''3. Overall quality score: 9/10''"

subsection \<open>Numbered prose\<close>

text \<open>
  A list of items as the prompt asks for them: one line per item, each after a hyphen and
  a space.
\<close>

definition bullets_text :: "pstr list \<Rightarrow> pstr" where
  "bullets_text items = join [NL] (map (\<lambda>item. str ''- '' @ item) items)"

text \<open>
  An item that the third tier gives back as it is: not empty, on one line, without white
  space at either end, and without the texts \<open>2.\<close>, \<open>3.\<close> and \<^verbatim>\<open>```json\<close>, which the
  patterns look for.
\<close>

definition plain_item :: "pstr \<Rightarrow> bool" where
  "plain_item x \<longleftrightarrow>
     x \<noteq> [] \<and> \<not> isspace (hd x) \<and> \<not> isspace (last x) \<and> NL \<notin> set x
     \<and> \<not> contains x (str ''2.'') \<and> \<not> contains x (str ''3.'')
     \<and> \<not> contains x (str ''```json'')"

text \<open>The three numbered sections, with bulleted items and the score \<open>n/10\<close>.\<close>

definition numbered_prose :: "pstr list \<Rightarrow> pstr list \<Rightarrow> nat \<Rightarrow> pstr" where
  "numbered_prose issues practices score =
     join [NL] [str ''1. Code quality issues:'', bullets_text issues,
                str ''2. Good practices:'', bullets_text practices,
                str ''3. Overall quality score: '' @ str_of_nat score @ str ''/10'']"

text \<open>
  The three numbered sections with numbered items: two issues, \<open>A\<close> and \<open>B\<close>, and one
  good practice, \<open>C\<close>.
\<close>

definition numbered_reply :: pstr where
  "numbered_reply =
     str ''1. Code quality issues:'' @ [NL] @ str ''1. A'' @ [NL] @ str ''2. B'' @ [NL]
     @ str ''2. Good practices:'' @ [NL] @ str ''1. C'' @ [NL]
     @ str ''3. Overall quality score: 7/10''"

section \<open>Properties of the text primitives\<close>

lemma split_chr_not_Nil [simp]: "split_chr c s \<noteq> []"
  by (induction s) (auto split: list.splits)

lemma length_split_chr: "length (split_chr c s) = Suc (count_list s c)"
proof (induction s)
  case Nil
  show ?case by simp
next
  case (Cons x xs)
  obtain l ls where "split_chr c xs = l # ls"
    using split_chr_not_Nil [of c xs] by (cases "split_chr c xs") auto
  with Cons show ?case by auto
qed

lemma split_chr_no_sep: "c \<notin> set s \<Longrightarrow> split_chr c s = [s]"
  by (induction s) auto

lemma split_chr_append:
  "c \<notin> set s \<Longrightarrow> split_chr c (s @ c # t) = s # split_chr c t"
  by (induction s) auto

lemma split_chr_pieces: "l \<in> set (split_chr c s) \<Longrightarrow> c \<notin> set l"
proof (induction s arbitrary: l)
  case Nil
  then show ?case by simp
next
  case (Cons x xs)
  obtain h t where ht: "split_chr c xs = h # t"
    using split_chr_not_Nil [of c xs] by (cases "split_chr c xs") auto
  show ?case
  proof (cases "x = c")
    case True
    with Cons show ?thesis by auto
  next
    case False
    with Cons.prems ht have "l = x # h \<or> l \<in> set t" by auto
    then show ?thesis
    proof
      assume "l = x # h"
      moreover have "c \<notin> set h" using Cons.IH [of h] ht by simp
      ultimately show ?thesis using False by auto
    next
      assume "l \<in> set t"
      then show ?thesis using Cons.IH [of l] ht by simp
    qed
  qed
qed

lemma startswith_set: "startswith s p \<Longrightarrow> set p \<subseteq> set s"
  unfolding startswith_def by (metis set_take_subset)

lemma contains_set: "contains s sub \<Longrightarrow> set sub \<subseteq> set s"
proof (induction s)
  case Nil
  then show ?case by simp
next
  case (Cons c cs)
  from Cons.prems have "startswith (c # cs) sub \<or> contains cs sub" by simp
  then show ?case
  proof
    assume "startswith (c # cs) sub"
    then show ?thesis by (rule startswith_set)
  next
    assume "contains cs sub"
    then have "set sub \<subseteq> set cs" by (rule Cons.IH)
    then show ?thesis by auto
  qed
qed

lemma split_str_no_sep: "\<not> contains s sep \<Longrightarrow> split_str sep s = [s]"
proof (induction s)
  case Nil
  then show ?case by (simp add: split_str.simps)
next
  case (Cons c cs)
  then show ?case by (subst split_str.simps) simp
qed

lemma strip_Nil [simp]: "strip [] = []"
  by (simp add: strip_def)

lemma dropWhile_rev_id: "s \<noteq> [] \<Longrightarrow> \<not> P (last s) \<Longrightarrow> dropWhile P (rev s) = rev s"
  by (cases s rule: rev_cases) auto

lemma strip_id:
  "strip s = s \<longleftrightarrow> s = [] \<or> (\<not> isspace (hd s) \<and> \<not> isspace (last s))"
proof (cases s)
  case Nil
  then show ?thesis by simp
next
  case (Cons c cs)
  show ?thesis
  proof
    assume a: "strip s = s"
    have 1: "\<not> isspace (hd s)"
    proof
      assume "isspace (hd s)"
      then have "length (dropWhile isspace s) < length s"
        using Cons by (simp add: le_imp_less_Suc length_dropWhile_le)
      moreover have "length (strip s) \<le> length (dropWhile isspace s)"
        unfolding strip_def by (metis length_dropWhile_le length_rev)
      ultimately show False using a by simp
    qed
    have 2: "\<not> isspace (last s)"
    proof
      assume l: "isspace (last s)"
      have d: "dropWhile isspace s = s" using 1 Cons by simp
      have "rev s = last s # rev (butlast s)"
        using Cons by (metis append_butlast_last_id list.distinct(1) rev.simps(2) rev_append rev_rev_ident rev_singleton_conv append_Nil)
      then have "length (dropWhile isspace (rev s)) < length s"
        using l by (metis dropWhile.simps(2) length_dropWhile_le le_imp_less_Suc length_Cons length_rev)
      then show False using a d unfolding strip_def
        by (metis length_rev less_irrefl)
    qed
    from 1 2 show "s = [] \<or> (\<not> isspace (hd s) \<and> \<not> isspace (last s))" by simp
  next
    assume "s = [] \<or> (\<not> isspace (hd s) \<and> \<not> isspace (last s))"
    then have h: "\<not> isspace (hd s)" "\<not> isspace (last s)" using Cons by auto
    have d: "dropWhile isspace s = s" using h Cons by simp
    have "hd (rev s) = last s" using Cons by (simp add: hd_rev)
    then have "dropWhile isspace (rev s) = rev s"
      using h Cons by (cases "rev s") auto
    then show "strip s = s" by (simp add: strip_def d)
  qed
qed

lemma strip_append_NL: "strip s = s \<Longrightarrow> strip (s @ [NL]) = s"
proof (cases "s = []")
  case True
  then show ?thesis by (simp add: strip_def isspace_def)
next
  case False
  assume "strip s = s"
  then have h: "\<not> isspace (hd s)" "\<not> isspace (last s)"
    using False by (simp_all add: strip_id)
  have d: "dropWhile isspace (s @ [NL]) = s @ [NL]"
    using h False by (cases s) auto
  have "dropWhile isspace (rev s) = rev s"
    using False h(2) by (rule dropWhile_rev_id)
  then show ?thesis
    by (simp add: strip_def d isspace_def)
qed

lemma startswith_append_short:
  "startswith (a @ b) sep \<Longrightarrow> length sep \<le> length a \<Longrightarrow> startswith a sep"
  by (simp add: startswith_def)

lemma startswith_straddle:
  "startswith (a @ b) sep \<Longrightarrow> length a \<le> length sep \<Longrightarrow> set a \<subseteq> set sep"
proof -
  assume "startswith (a @ b) sep" "length a \<le> length sep"
  then have "a @ take (length sep - length a) b = sep"
    by (simp add: startswith_def)
  then show ?thesis by (metis set_append sup_ge1)
qed

lemma contains_Cons: "contains (c # cs) sub \<longleftrightarrow> startswith (c # cs) sub \<or> contains cs sub"
  by simp

lemma contains_split_at:
  "contains (u @ x # v) sep \<Longrightarrow> x \<notin> set sep \<Longrightarrow> contains u sep \<or> contains v sep"
proof (induction u)
  case Nil
  have "\<not> startswith (x # v) sep \<or> sep = []"
    using Nil(2) by (cases sep) (auto simp: startswith_def)
  moreover have "contains v [] " by (induction v) (auto simp: startswith_def)
  ultimately show ?case using Nil(1) by auto
next
  case (Cons y u)
  from Cons.prems(1) have "startswith (y # u @ x # v) sep \<or> contains (u @ x # v) sep"
    by simp
  then show ?case
  proof
    assume s: "startswith (y # u @ x # v) sep"
    show ?thesis
    proof (cases "length sep \<le> length (y # u)")
      case True
      with s have "startswith (y # u) sep"
        using startswith_append_short [of "y # u" "x # v" sep] by simp
      then show ?thesis by simp
    next
      case False
      then have "length (y # u @ [x]) \<le> length sep" by simp
      then have "set (y # u @ [x]) \<subseteq> set sep"
        using s startswith_straddle [of "y # u @ [x]" v sep] by simp
      then show ?thesis using Cons.prems(2) by simp
    qed
  next
    assume "contains (u @ x # v) sep"
    then have "contains u sep \<or> contains v sep" using Cons.IH Cons.prems(2) by blast
    then show ?thesis by auto
  qed
qed

lemma not_startswith_piece:
  assumes "a \<noteq> []" and "last a \<notin> set sep" and "\<not> contains a sep"
  shows "\<not> startswith (a @ b) sep"
proof
  assume s: "startswith (a @ b) sep"
  show False
  proof (cases "length sep \<le> length a")
    case True
    with s have "startswith a sep" by (rule startswith_append_short)
    then have "contains a sep" using assms(1) by (cases a) auto
    with assms(3) show False by simp
  next
    case False
    then have "set a \<subseteq> set sep" using s startswith_straddle by simp
    then show False using assms(1,2) last_in_set by blast
  qed
qed

lemma contains_Nil_iff: "contains [] sep \<longleftrightarrow> sep = []"
  by simp

lemma contains_length: "contains s sub \<Longrightarrow> length sub \<le> length s"
proof (induction s)
  case Nil
  then show ?case by simp
next
  case (Cons c cs)
  from Cons.prems have "startswith (c # cs) sub \<or> contains cs sub" by simp
  then show ?case
  proof
    assume "startswith (c # cs) sub"
    then have "length (take (length sub) (c # cs)) = length sub"
      by (simp add: startswith_def)
    then show ?thesis by (simp add: min_def split: if_splits)
  next
    assume "contains cs sub"
    then show ?thesis using Cons.IH by simp
  qed
qed

section \<open>Properties of the matcher\<close>

lemma pos_advance [simp]: "pos (advance j st) = pos st + j"
  by (simp add: advance_def)

lemma rest_advance [simp]: "rest (advance j st) = drop j (rest st)"
  by (simp add: advance_def)

lemma groups_advance [simp]: "groups (advance j st) = groups st"
  by (simp add: advance_def)

lemma prev_advance:
  "prev (advance j st) = (if j = 0 then prev st else Some (rest st ! (j - 1)))"
  by (simp add: advance_def)

lemma advance_0 [simp]: "advance 0 st = st"
  by (simp add: advance_def)

lemma advance_add:
  "i \<le> length (rest st) \<Longrightarrow> advance j (advance i st) = advance (i + j) st"
  by (cases j) (auto simp: advance_def nth_drop add.commute)

lemma first_some_append:
  "first_some f (xs @ ys) = (case first_some f xs of Some r \<Rightarrow> Some r | None \<Rightarrow> first_some f ys)"
  by (induction xs) (auto split: option.splits)

lemma first_some_None: "(\<And>x. x \<in> set xs \<Longrightarrow> f x = None) \<Longrightarrow> first_some f xs = None"
  by (induction xs) auto

lemma seq_Cons: "rs \<noteq> [] \<Longrightarrow> seq (r # rs) = Seq r (seq rs)"
  by (cases rs) simp_all

lemma rx_match_chars:
  "rx_match (seq (map Chr Ps)) st k =
     (if length Ps \<le> length (rest st) \<and> list_all2 (\<lambda>P c. P c) Ps (take (length Ps) (rest st))
      then k (advance (length Ps) st) else None)"
proof (induction Ps arbitrary: st k)
  case Nil
  show ?case by simp
next
  case (Cons P Qs)
  show ?case
  proof (cases "Qs = []")
    case True
    then show ?thesis
      by (cases "rest st") auto
  next
    case False
    then have s: "seq (map Chr (P # Qs)) = Seq (Chr P) (seq (map Chr Qs))"
      by (simp add: seq_Cons)
    show ?thesis
    proof (cases "rest st")
      case Nil
      then show ?thesis unfolding s by simp
    next
      case (Cons c cs)
      have a: "advance (length Qs) (advance (Suc 0) st) = advance (Suc (length Qs)) st"
        using advance_add [of 1 st "length Qs"] Cons by simp
      have "rx_match (seq (map Chr (P # Qs))) st k =
          (if P c then rx_match (seq (map Chr Qs)) (advance 1 st) k else None)"
        unfolding s using Cons by simp
      also have "\<dots> = (if P c \<and> length Qs \<le> length cs
                        \<and> list_all2 (\<lambda>P c. P c) Qs (take (length Qs) cs)
                      then k (advance (Suc (length Qs)) st) else None)"
        using Cons by (simp add: Cons.IH a)
      finally show ?thesis using Cons by simp
    qed
  qed
qed

lemma list_all2_literal:
  "list_all2 (\<lambda>P c. P c) (map (\<lambda>c x. x = c) s) xs \<longleftrightarrow> xs = s"
  by (induction s arbitrary: xs) (auto simp: list_all2_Cons1)

lemma rx_match_lit:
  "rx_match (lit s) st k =
     (if startswith (rest st) s then k (advance (length s) st) else None)"
proof -
  have l: "lit s = seq (map Chr (map (\<lambda>c x. x = c) s))"
    by (simp add: lit_def comp_def)
  have "length s \<le> length (rest st)" if "take (length s) (rest st) = s"
  proof -
    from that have "length (take (length s) (rest st)) = length s" by simp
    then show ?thesis by (simp add: min_def split: if_splits)
  qed
  then show ?thesis
    unfolding l rx_match_chars startswith_def
    by (auto simp: list_all2_literal)
qed

lemma first_some_hit:
  "(\<And>x. x \<in> set xs \<Longrightarrow> f x = None) \<Longrightarrow> f y = Some r \<Longrightarrow>
     first_some f (xs @ y # ys) = Some r"
  by (simp add: first_some_append first_some_None)

lemma upt_split:
  "mn \<le> j \<Longrightarrow> j \<le> n \<Longrightarrow> [mn ..< Suc n] = [mn ..< j] @ j # [Suc j ..< Suc n]"
proof -
  assume a: "mn \<le> j" "j \<le> n"
  then obtain d where d: "Suc n = j + d" by (metis le_Suc_ex le_SucI)
  have "[mn ..< j + d] = [mn ..< j] @ [j ..< j + d]"
    using a(1) by (rule upt_add_eq_append)
  moreover have "[j ..< Suc n] = j # [Suc j ..< Suc n]"
    using a(2) by (simp add: upt_conv_Cons)
  ultimately show ?thesis using d by simp
qed

lemma rep_lazy_hit:
  assumes "mn \<le> j" and "j \<le> length (takeWhile P (rest st))"
    and "\<And>i. mn \<le> i \<Longrightarrow> i < j \<Longrightarrow> k (advance i st) = None"
    and "k (advance j st) = Some r"
  shows "rx_match (Rep P mn False) st k = Some r"
proof -
  let ?n = "length (takeWhile P (rest st))"
  have "[mn ..< Suc ?n] = [mn ..< j] @ j # [Suc j ..< Suc ?n]"
    using assms(1,2) by (rule upt_split)
  moreover have "first_some (\<lambda>i. k (advance i st)) ([mn ..< j] @ j # [Suc j ..< Suc ?n]) = Some r"
    by (rule first_some_hit) (use assms(3,4) in auto)
  ultimately show ?thesis by (simp add: Let_def)
qed

lemma takeWhile_dot_line:
  "NL \<notin> set p \<Longrightarrow> takeWhile dot (p @ NL # r) = p"
  by (induction p) (auto simp: dot_def)

lemma match_file_rx:
  assumes st: "rest st = str ''FILE: '' @ p @ NL # r" and p: "p \<noteq> []" "NL \<notin> set p"
  shows "\<exists>m. rx_match file_rx st Some = Some m \<and> match_group m 1 = p
            \<and> pos m = pos st + 7 + length p \<and> rest m = r"
proof -
  define st6 where "st6 = advance 6 st"
  let ?k2 = "\<lambda>s. rx_match (lit [NL]) s Some"
  let ?K = "\<lambda>st'. ?k2 (st'\<lparr>groups := (groups st')(1 \<mapsto> take (pos st' - pos st6) (rest st6))\<rparr>)"
  let ?m = "advance 1 ((advance (length p) st6)\<lparr>groups := (groups st6)(1 \<mapsto> p)\<rparr>)"
  have r6: "rest st6 = p @ NL # r"
    using st by (simp add: st6_def str_def)
  have p6: "pos st6 = pos st + 6"
    by (simp add: st6_def)
  have sw: "startswith (rest st) (str ''FILE: '')"
    using st by (simp add: startswith_def str_def)
  have miss: "?K (advance i st6) = None" if "1 \<le> i" "i < length p" for i
  proof -
    have "drop i (p @ NL # r) = (p ! i) # drop (Suc i) p @ NL # r"
      using that by (simp add: Cons_nth_drop_Suc)
    moreover have "p ! i \<noteq> NL" using that p by (metis nth_mem)
    ultimately show ?thesis
      by (simp add: rx_match_lit r6 startswith_def)
  qed
  have hit: "?K (advance (length p) st6) = Some ?m"
    by (simp add: rx_match_lit r6 startswith_def)
  have "rx_match (Rep dot 1 False) st6 ?K = Some ?m"
  proof (rule rep_lazy_hit [where j = "length p"])
    show "1 \<le> length p" using p by (cases p) auto
    show "length p \<le> length (takeWhile dot (rest st6))"
      using p by (simp add: r6 takeWhile_dot_line)
    show "?K (advance i st6) = None" if "1 \<le> i" "i < length p" for i
      using that by (rule miss)
    show "?K (advance (length p) st6) = Some ?m" by (rule hit)
  qed
  then have g: "rx_match (Group 1 (Rep dot 1 False)) st6 ?k2 = Some ?m"
    by (simp del: rx_match.simps(5))
  have "length (str ''FILE: '') = 6"
    by (simp add: str_def)
  then have "advance (length (str ''FILE: '')) st = st6"
    by (simp only: st6_def)
  then have "rx_match file_rx st Some = rx_match (Group 1 (Rep dot 1 False)) st6 ?k2"
    using sw by (simp add: file_rx_def rx_match_lit del: rx_match.simps(5,6))
  with g have "rx_match file_rx st Some = Some ?m"
    by simp
  moreover have "match_group ?m 1 = p" by (simp add: match_group_def advance_def)
  moreover have "pos ?m = pos st + 7 + length p" by (simp add: advance_def p6)
  moreover have "rest ?m = r" by (simp add: advance_def r6)
  ultimately show ?thesis by blast
qed

lemma search_from_hit: "rx_match r st Some = Some m \<Longrightarrow> search_from r st n = Some m"
  by (cases n) simp_all

lemma search_from_miss:
  "rx_match r st Some = None \<Longrightarrow> search_from r st (Suc n) = search_from r (advance 1 st) n"
  by simp

section \<open>The section patterns on a text with the section at hand\<close>

lemma ci_refl [simp]: "ci c c"
  by (simp add: ci_def)

lemma ci_exact: "p < 65 \<Longrightarrow> ci p x \<longleftrightarrow> x = p"
  by (auto simp: ci_def lower_ascii_def)

lemma rx_match_lit_i:
  "rx_match (lit_i s) st k =
     (if length s \<le> length (rest st) \<and> list_all2 ci s (take (length s) (rest st))
      then k (advance (length s) st) else None)"
proof -
  have l: "lit_i s = seq (map Chr (map ci s))"
    by (simp add: lit_i_def comp_def)
  show ?thesis
    unfolding l rx_match_chars by (simp add: list_all2_map1)
qed

lemma list_all2_ci_refl: "list_all2 ci s s"
  by (simp add: list_all2_same)

lemma rx_match_lit_i_hit:
  "rest st = s @ r \<Longrightarrow> rx_match (lit_i s) st k = k (advance (length s) st)"
  by (simp add: rx_match_lit_i list_all2_ci_refl)

lemma rx_match_lit_i_miss:
  "rest st = c # r \<Longrightarrow> \<not> ci p c \<Longrightarrow> rx_match (lit_i (p # s)) st k = None"
  by (simp add: rx_match_lit_i)

lemma rx_match_lit_i_Nil: "rest st = [] \<Longrightarrow> rx_match (lit_i (p # s)) st k = None"
  by (simp add: rx_match_lit_i)

lemma rep_greedy_hit:
  assumes "mn \<le> length (takeWhile P (rest st))"
    and "k (advance (length (takeWhile P (rest st))) st) = Some r"
  shows "rx_match (Rep P mn True) st k = Some r"
  using assms by (simp add: Let_def)

lemma rep_greedy_none:
  "\<not> P (hd (rest st)) \<or> rest st = [] \<Longrightarrow> rx_match (Rep P 0 True) st k = k st"
  by (cases "rest st") (auto simp: Let_def split: option.splits)

lemma rep_lazy_none_min:
  "rx_match (Rep P mn False) st k = None"
  if "length (takeWhile P (rest st)) < mn"
  using that by (simp add: Let_def)

lemma search_from_none:
  "(\<And>i. i \<le> n \<Longrightarrow> rx_match r (advance i st) Some = None) \<Longrightarrow> n \<le> length (rest st)
     \<Longrightarrow> search_from r st n = None"
proof (induction n arbitrary: st)
  case 0
  then show ?case using "0.prems"(1) [of 0] by simp
next
  case (Suc n)
  have a: "rx_match r st Some = None" using Suc.prems(1) [of 0] by simp
  have "search_from r (advance 1 st) n = None"
  proof (rule Suc.IH)
    fix i assume "i \<le> n"
    then have "rx_match r (advance (1 + i) st) Some = None"
      using Suc.prems(1) [of "Suc i"] by simp
    moreover have "advance i (advance 1 st) = advance (1 + i) st"
      using Suc.prems(2) by (intro advance_add) simp
    ultimately show "rx_match r (advance i (advance 1 st)) Some = None" by simp
  next
    show "n \<le> length (rest (advance 1 st))" using Suc.prems(2) by simp
  qed
  with a show ?case by simp
qed

lemma search_from_skip:
  assumes "\<And>i. i < j \<Longrightarrow> rx_match r (advance i st) Some = None"
    and "j \<le> n" and "n \<le> length (rest st)"
    and "rx_match r (advance j st) Some = Some m"
  shows "search_from r st n = Some m"
  using assms
proof (induction j arbitrary: st n)
  case 0
  then show ?case by (simp add: search_from_hit)
next
  case (Suc j)
  obtain n' where n: "n = Suc n'" using Suc.prems(2) by (cases n) auto
  have a: "rx_match r st Some = None" using Suc.prems(1) [of 0] by simp
  have "search_from r (advance 1 st) n' = Some m"
  proof (rule Suc.IH)
    fix i assume "i < j"
    then have "rx_match r (advance (1 + i) st) Some = None"
      using Suc.prems(1) [of "Suc i"] by simp
    moreover have "advance i (advance 1 st) = advance (1 + i) st"
      using Suc.prems(3) n by (intro advance_add) simp
    ultimately show "rx_match r (advance i (advance 1 st)) Some = None" by simp
  next
    show "j \<le> n'" using Suc.prems(2) n by simp
    show "n' \<le> length (rest (advance 1 st))" using Suc.prems(3) n by simp
    have "advance j (advance 1 st) = advance (Suc j) st"
      using Suc.prems(3) n advance_add [of 1 st j] by simp
    then show "rx_match r (advance j (advance 1 st)) Some = Some m"
      using Suc.prems(4) by simp
  qed
  with a n show ?case by simp
qed

lemma rep_greedy_zero:
  "takeWhile P (rest st) = [] \<Longrightarrow> rx_match (Rep P 0 True) st k = k st"
  by (simp add: Let_def split: option.splits)

lemma rep_greedy_one:
  "length (takeWhile P (rest st)) = 1 \<Longrightarrow>
     rx_match (Rep P 0 True) st k =
       (case k (advance 1 st) of Some r \<Rightarrow> Some r | None \<Rightarrow> k st)"
  by (simp add: Let_def split: option.splits)

definition look_next :: "pstr \<Rightarrow> rx" where
  "look_next next_number =
     Look (Alt (seq [lit_i [NL], Rep isspace 0 True, lit_i next_number]) Eos)"

lemma takeWhile_hd: "xs \<noteq> [] \<Longrightarrow> \<not> P (hd xs) \<Longrightarrow> takeWhile P (xs @ ys) = []"
  by (cases xs) auto

lemma look_next_hit:
  assumes "rest s = NL # nx @ post" and "nx \<noteq> []" and "\<not> isspace (hd nx)"
  shows "rx_match (look_next nx) s k = k s"
proof -
  define s1 where "s1 = advance (length [NL]) s"
  have r1: "rest s1 = nx @ post" using assms(1) by (simp add: s1_def)
  have t: "takeWhile isspace (rest s1) = []"
    unfolding r1 using assms(2,3) by (rule takeWhile_hd)
  have "rx_match (Rep isspace 0 True) s1 (\<lambda>s2. rx_match (lit_i nx) s2 Some)
          = rx_match (lit_i nx) s1 Some"
    using t by (rule rep_greedy_zero)
  also have "\<dots> = Some (advance (length nx) s1)"
    using r1 by (rule rx_match_lit_i_hit)
  finally have a: "rx_match (Rep isspace 0 True) s1 (\<lambda>s2. rx_match (lit_i nx) s2 Some)
          = Some (advance (length nx) s1)" .
  have "rx_match (lit_i [NL]) s (\<lambda>s1. rx_match (Rep isspace 0 True) s1
            (\<lambda>s2. rx_match (lit_i nx) s2 Some)) = Some (advance (length nx) s1)"
    using assms(1) a by (simp add: rx_match_lit_i s1_def del: rx_match.simps(5))
  then show ?thesis
    by (simp add: look_next_def del: rx_match.simps(5))
qed

lemma look_next_miss:
  assumes "rest s = c # r" and "nx \<noteq> []"
    and "c \<noteq> NL \<or> (r \<noteq> [] \<and> \<not> isspace (hd r) \<and> \<not> ci (hd nx) (hd r))"
  shows "rx_match (look_next nx) s k = None"
proof -
  obtain n nx' where nx: "nx = n # nx'" using assms(2) by (cases nx) auto
  have "rx_match (lit_i [NL]) s (\<lambda>s1. rx_match (Rep isspace 0 True) s1
            (\<lambda>s2. rx_match (lit_i nx) s2 Some)) = None"
  proof (cases "c = NL")
    case False
    then have "\<not> ci NL c" by (simp add: ci_exact)
    then show ?thesis using assms(1) by (simp add: rx_match_lit_i)
  next
    case True
    then obtain d r' where r: "r = d # r'" "\<not> isspace d" "\<not> ci n d"
      using assms(3) nx by (cases r) auto
    define s1 where "s1 = advance (length [NL]) s"
    have r1: "rest s1 = d # r'" using assms(1) r by (simp add: s1_def)
    have "rx_match (Rep isspace 0 True) s1 (\<lambda>s2. rx_match (lit_i nx) s2 Some)
          = rx_match (lit_i nx) s1 Some"
      by (rule rep_greedy_zero) (simp add: r1 r(2))
    also have "\<dots> = None"
      unfolding nx using r1 r(3) by (rule rx_match_lit_i_miss)
    finally show ?thesis
      using assms(1) True by (simp add: rx_match_lit_i s1_def del: rx_match.simps(5))
  qed
  then show ?thesis
    using assms(1) by (simp add: look_next_def del: rx_match.simps(5))
qed

lemma takeWhile_any_char [simp]: "takeWhile any_char xs = xs"
  by (induction xs) (auto simp: any_char_def)

lemma section_rx_look:
  "section_rx number title next_number =
     seq [lit_i number, Rep isspace 0 True, lit_i title, opt (lit_i (str '':'')),
          Rep isspace 0 True, lit_i [NL], Group 1 (Rep any_char 0 False),
          look_next next_number]"
  by (simp add: section_rx_def look_next_def)

lemma group_body:
  assumes r: "rest s = body @ NL # nx @ post"
    and nx: "nx \<noteq> []" "\<not> isspace (hd nx)"
    and nolook: "\<And>u r'. body = u @ NL # r' \<Longrightarrow>
                   r' \<noteq> [] \<and> \<not> isspace (hd r') \<and> \<not> ci (hd nx) (hd r')"
  shows "rx_match (Group 1 (Rep any_char 0 False)) s (\<lambda>s'. rx_match (look_next nx) s' Some)
           = Some ((advance (length body) s)\<lparr>groups := (groups s)(1 \<mapsto> body)\<rparr>)"
proof -
  let ?K = "\<lambda>st'. rx_match (look_next nx)
               (st'\<lparr>groups := (groups st')(1 \<mapsto> take (pos st' - pos s) (rest s))\<rparr>) Some"
  let ?m = "(advance (length body) s)\<lparr>groups := (groups s)(1 \<mapsto> body)\<rparr>"
  have miss: "?K (advance i s) = None" if "i < length body" for i
  proof -
    have b: "body = take i body @ (body ! i) # drop (Suc i) body"
      using that by (simp add: id_take_nth_drop)
    have d: "drop i (rest s) = (body ! i) # (drop (Suc i) body @ NL # nx @ post)"
      using that r by (simp add: Cons_nth_drop_Suc)
    show ?thesis
    proof (rule look_next_miss [where c = "body ! i" and r = "drop (Suc i) body @ NL # nx @ post"])
      show "rest (advance i s\<lparr>groups := (groups (advance i s))
               (1 \<mapsto> take (pos (advance i s) - pos s) (rest s))\<rparr>)
            = body ! i # drop (Suc i) body @ NL # nx @ post"
        using d by simp
      show "nx \<noteq> []" by (rule nx)
      show "body ! i \<noteq> NL \<or>
            drop (Suc i) body @ NL # nx @ post \<noteq> [] \<and>
            \<not> isspace (hd (drop (Suc i) body @ NL # nx @ post)) \<and>
            \<not> ci (hd nx) (hd (drop (Suc i) body @ NL # nx @ post))"
      proof (cases "body ! i = NL")
        case False
        then show ?thesis by simp
      next
        case True
        with b have "body = take i body @ NL # drop (Suc i) body" by simp
        from nolook [OF this] show ?thesis by (cases "drop (Suc i) body") auto
      qed
    qed
  qed
  have hit: "?K (advance (length body) s) = Some ?m"
  proof -
    have "rx_match (look_next nx) ?m Some = Some ?m"
      using nx by (intro look_next_hit [where post = post]) (simp_all add: r)
    then show ?thesis by (simp add: r)
  qed
  have "rx_match (Rep any_char 0 False) s ?K = Some ?m"
  proof (rule rep_lazy_hit [where j = "length body"])
    show "0 \<le> length body" by simp
    show "length body \<le> length (takeWhile any_char (rest s))" by (simp add: r)
    show "?K (advance i s) = None" if "0 \<le> i" "i < length body" for i
      using that(2) by (rule miss)
    show "?K (advance (length body) s) = Some ?m" by (rule hit)
  qed
  then show ?thesis by (simp del: rx_match.simps(5))
qed

lemma match_section_rx:
  assumes r: "rest st = number @ 32 # title @ 58 # NL # body @ NL # nx @ post"
    and title: "title \<noteq> []" "\<not> isspace (hd title)"
    and body: "body \<noteq> []" "\<not> isspace (hd body)"
    and nx: "nx \<noteq> []" "\<not> isspace (hd nx)"
    and nolook: "\<And>u r'. body = u @ NL # r' \<Longrightarrow>
                   r' \<noteq> [] \<and> \<not> isspace (hd r') \<and> \<not> ci (hd nx) (hd r')"
  shows "\<exists>m. rx_match (section_rx number title nx) st Some = Some m \<and> match_group m 1 = body"
proof -
  define s1 where "s1 = advance (length number) st"
  define s2 where "s2 = advance 1 s1"
  define s3 where "s3 = advance (length title) s2"
  define s4 where "s4 = advance (length (str '':'')) s3"
  define s5 where "s5 = advance (length [NL]) s4"
  define m where "m = (advance (length body) s5)\<lparr>groups := (groups s5)(1 \<mapsto> body)\<rparr>"
  let ?p6 = "seq [Group 1 (Rep any_char 0 False), look_next nx]"
  let ?p5 = "seq [lit_i [NL], Group 1 (Rep any_char 0 False), look_next nx]"
  let ?p4 = "seq [Rep isspace 0 True, lit_i [NL], Group 1 (Rep any_char 0 False), look_next nx]"
  let ?p3 = "seq [opt (lit_i (str '':'')), Rep isspace 0 True, lit_i [NL],
                  Group 1 (Rep any_char 0 False), look_next nx]"
  let ?p2 = "seq [lit_i title, opt (lit_i (str '':'')), Rep isspace 0 True, lit_i [NL],
                  Group 1 (Rep any_char 0 False), look_next nx]"
  let ?p1 = "seq [Rep isspace 0 True, lit_i title, opt (lit_i (str '':'')),
                  Rep isspace 0 True, lit_i [NL], Group 1 (Rep any_char 0 False),
                  look_next nx]"
  have r1: "rest s1 = 32 # title @ 58 # NL # body @ NL # nx @ post"
    using r by (simp add: s1_def)
  have r2: "rest s2 = title @ 58 # NL # body @ NL # nx @ post"
    using r1 by (simp add: s2_def)
  have r3: "rest s3 = str '':'' @ NL # body @ NL # nx @ post"
    using r2 by (simp add: s3_def str_def)
  have r4: "rest s4 = [NL] @ body @ NL # nx @ post"
    using r3 by (simp add: s4_def)
  have r5: "rest s5 = body @ NL # nx @ post"
    using r4 by (simp add: s5_def)
  have f6: "rx_match ?p6 s5 Some = Some m"
    using group_body [OF r5 nx nolook] by (simp add: m_def del: rx_match.simps(5,6))
  have f5: "rx_match ?p5 s4 Some = Some m"
  proof -
    have "rx_match ?p5 s4 Some = rx_match (lit_i [NL]) s4 (\<lambda>s. rx_match ?p6 s Some)"
      by (simp del: rx_match.simps(5,6))
    also have "\<dots> = rx_match ?p6 s5 Some"
      unfolding s5_def using r4 by (rule rx_match_lit_i_hit)
    finally show ?thesis using f6 by simp
  qed
  have f4: "rx_match ?p4 s4 Some = Some m"
  proof -
    have t: "length (takeWhile isspace (rest s4)) = 1"
      using body by (cases body) (simp_all add: r4 isspace_def)
    have "rx_match (lit_i [NL]) (advance 1 s4) (\<lambda>s. rx_match ?p6 s Some) = None"
    proof (rule rx_match_lit_i_miss)
      show "rest (advance 1 s4) = hd body # (tl body @ NL # nx @ post)"
        using body(1) by (simp add: r4)
      show "\<not> ci NL (hd body)"
        using body(2) by (auto simp: ci_exact isspace_def)
    qed
    then have "rx_match ?p5 (advance 1 s4) Some = None"
      by (simp del: rx_match.simps(5,6))
    moreover have "rx_match ?p4 s4 Some =
        (case rx_match ?p5 (advance 1 s4) Some of Some r \<Rightarrow> Some r
         | None \<Rightarrow> rx_match ?p5 s4 Some)"
      using rep_greedy_one [OF t, of "\<lambda>s. rx_match ?p5 s Some"]
      by (simp del: rx_match.simps(5,6))
    ultimately show ?thesis using f5 by simp
  qed
  have f3: "rx_match ?p3 s3 Some = Some m"
  proof -
    have "rx_match (lit_i (str '':'')) s3 (\<lambda>s. rx_match ?p4 s Some) = rx_match ?p4 s4 Some"
      unfolding s4_def using r3 by (rule rx_match_lit_i_hit)
    then show ?thesis
      using f4 by (simp add: opt_def del: rx_match.simps(5,6))
  qed
  have f2: "rx_match ?p2 s2 Some = Some m"
  proof -
    have "rx_match (lit_i title) s2 (\<lambda>s. rx_match ?p3 s Some) = rx_match ?p3 s3 Some"
      unfolding s3_def using r2 by (rule rx_match_lit_i_hit)
    then show ?thesis
      using f3 title(1) by (simp add: seq_Cons del: rx_match.simps(5,6))
  qed
  have f1: "rx_match ?p1 s1 Some = Some m"
  proof -
    have t: "length (takeWhile isspace (rest s1)) = 1"
      using title by (cases title) (simp_all add: r1 isspace_def)
    have "rx_match ?p1 s1 Some =
        (case rx_match ?p2 (advance 1 s1) Some of Some r \<Rightarrow> Some r
         | None \<Rightarrow> rx_match ?p2 s1 Some)"
      using rep_greedy_one [OF t, of "\<lambda>s. rx_match ?p2 s Some"]
      by (simp del: rx_match.simps(5,6))
    then show ?thesis using f2 by (simp add: s2_def)
  qed
  have "rx_match (lit_i number) st (\<lambda>s. rx_match ?p1 s Some) = rx_match ?p1 s1 Some"
    unfolding s1_def using r by (rule rx_match_lit_i_hit)
  then have "rx_match (section_rx number title nx) st Some = Some m"
    using f1 by (simp add: section_rx_look del: rx_match.simps(5,6))
  moreover have "match_group m 1 = body"
    by (simp add: m_def match_group_def)
  ultimately show ?thesis by blast
qed

section \<open>The fallback on numbered prose\<close>

lemma bullets_text_Cons:
  "bullets_text (x # y # ys) = str ''- '' @ x @ NL # bullets_text (y # ys)"
  by (simp add: bullets_text_def)

lemma bullets_text_single: "bullets_text [x] = str ''- '' @ x"
  by (simp add: bullets_text_def)

lemma match_bullet_rx:
  assumes r: "rest s = str ''- '' @ x @ tail"
    and bol: "prev s = None \<or> prev s = Some NL"
    and x: "x \<noteq> []" "\<not> isspace (hd x)" "NL \<notin> set x"
    and tail: "tail = [] \<or> hd tail = NL"
  shows "\<exists>m. rx_match bullet_rx s Some = Some m \<and> match_group m 1 = x
            \<and> rest m = tail \<and> prev m = Some (last x)"
proof -
  define s1 where "s1 = advance 1 s"
  define s2 where "s2 = advance 1 s1"
  define m where "m = (advance (length x) s2)\<lparr>groups := (groups s2)(1 \<mapsto> x)\<rparr>"
  let ?cls = "\<lambda>c. c = 45 \<or> c = 8226 \<or> c = 42"
  let ?p4 = "Group 1 (Rep dot 0 True)"
  let ?p3 = "seq [Rep isspace 1 True, Group 1 (Rep dot 0 True)]"
  let ?p2 = "seq [Chr ?cls, Rep isspace 1 True, Group 1 (Rep dot 0 True)]"
  let ?p1 = "seq [Rep isspace 0 True, Chr ?cls, Rep isspace 1 True, Group 1 (Rep dot 0 True)]"
  have r0: "rest s = 45 # 32 # x @ tail" using r by (simp add: str_def)
  have r1: "rest s1 = 32 # x @ tail" using r0 by (simp add: s1_def)
  have r2: "rest s2 = x @ tail" using r1 by (simp add: s2_def)
  have tw: "takeWhile dot (x @ tail) = x"
  proof -
    have "\<forall>c\<in>set x. dot c" using x(3) by (auto simp: dot_def)
    moreover have "takeWhile dot tail = []"
      using tail by (cases tail) (auto simp: dot_def)
    ultimately show ?thesis by (simp add: takeWhile_append2)
  qed
  have f4: "rx_match ?p4 s2 Some = Some m"
  proof -
    let ?K = "\<lambda>st'. Some (st'\<lparr>groups := (groups st')(1 \<mapsto> take (pos st' - pos s2) (rest s2))\<rparr>)"
    have "rx_match (Rep dot 0 True) s2 ?K = Some m"
    proof (rule rep_greedy_hit)
      show "0 \<le> length (takeWhile dot (rest s2))" by simp
      show "?K (advance (length (takeWhile dot (rest s2))) s2) = Some m"
        by (simp add: r2 tw m_def)
    qed
    then show ?thesis by (simp del: rx_match.simps(5))
  qed
  have f3: "rx_match ?p3 s1 Some = Some m"
  proof -
    have t: "takeWhile isspace (rest s1) = [32]"
      using x(1,2) by (cases x) (simp_all add: r1 isspace_def)
    have "rx_match (Rep isspace 1 True) s1 (\<lambda>s. rx_match ?p4 s Some) = Some m"
    proof (rule rep_greedy_hit)
      show "1 \<le> length (takeWhile isspace (rest s1))" by (simp add: t)
      show "rx_match ?p4 (advance (length (takeWhile isspace (rest s1))) s1) Some = Some m"
        using f4 by (simp add: t s2_def del: rx_match.simps(5,6))
    qed
    then show ?thesis by (simp del: rx_match.simps(5,6))
  qed
  have f2: "rx_match ?p2 s Some = Some m"
    using f3 r0 by (simp add: s1_def del: rx_match.simps(5,6))
  have f1: "rx_match ?p1 s Some = Some m"
  proof -
    have "takeWhile isspace (rest s) = []" by (simp add: r0 isspace_def)
    then have "rx_match (Rep isspace 0 True) s (\<lambda>s'. rx_match ?p2 s' Some) = rx_match ?p2 s Some"
      by (rule rep_greedy_zero)
    then show ?thesis using f2 by (simp del: rx_match.simps(5,6))
  qed
  have "rx_match bullet_rx s Some = Some m"
    using f1 bol by (auto simp: bullet_rx_def simp del: rx_match.simps(5,6))
  moreover have "match_group m 1 = x" by (simp add: m_def match_group_def)
  moreover have "rest m = tail" by (simp add: m_def r2)
  moreover have "prev m = Some (last x)"
    using x(1) by (simp add: m_def prev_advance r2 nth_append last_conv_nth)
  ultimately show ?thesis by blast
qed

lemma bullets_text_more:
  "xs \<noteq> [] \<Longrightarrow> bullets_text (x # xs) = str ''- '' @ x @ NL # bullets_text xs"
  by (cases xs) (simp_all add: bullets_text_Cons)

lemma findall_bullet_end:
  assumes "rest s = []" and "prev s = Some c" and "c \<noteq> NL"
  shows "findall_from bullet_rx s = []"
proof -
  have "rx_match bullet_rx s Some = None"
    using assms by (simp add: bullet_rx_def del: rx_match.simps(5,6))
  then show ?thesis using assms(1) by (subst findall_from.simps) simp
qed

lemma search_bullet:
  assumes r: "rest s = pre @ str ''- '' @ x @ tail"
    and pre: "(pre = [] \<and> (prev s = None \<or> prev s = Some NL))
              \<or> (pre = [NL] \<and> prev s \<noteq> None \<and> prev s \<noteq> Some NL)"
    and x: "x \<noteq> []" "\<not> isspace (hd x)" "NL \<notin> set x"
    and tail: "tail = [] \<or> hd tail = NL"
  shows "\<exists>m. search_from bullet_rx s (length (rest s)) = Some m \<and> match_group m 1 = x
            \<and> rest m = tail \<and> prev m = Some (last x)"
proof (cases "pre = []")
  case True
  then have "rest s = str ''- '' @ x @ tail" and "prev s = None \<or> prev s = Some NL"
    using r pre by auto
  then obtain m where m: "rx_match bullet_rx s Some = Some m" "match_group m 1 = x"
      "rest m = tail" "prev m = Some (last x)"
    using match_bullet_rx [OF _ _ x tail] by blast
  from m(1) have "search_from bullet_rx s (length (rest s)) = Some m"
    by (rule search_from_hit)
  then show ?thesis using m by blast
next
  case False
  then have p: "pre = [NL]" "prev s \<noteq> None" "prev s \<noteq> Some NL"
    using pre by auto
  define s1 where "s1 = advance 1 s"
  have r1: "rest s1 = str ''- '' @ x @ tail" by (simp add: s1_def r p)
  have p1: "prev s1 = None \<or> prev s1 = Some NL" by (simp add: s1_def prev_advance r p)
  obtain m where m: "rx_match bullet_rx s1 Some = Some m" "match_group m 1 = x"
      "rest m = tail" "prev m = Some (last x)"
    using match_bullet_rx [OF r1 p1 x tail] by blast
  have miss: "rx_match bullet_rx s Some = None"
    using p by (cases "prev s") (simp_all add: bullet_rx_def del: rx_match.simps(5,6))
  have l: "length (rest s) = Suc (length (rest s1))" by (simp add: r r1 p)
  have "search_from bullet_rx s (length (rest s)) = search_from bullet_rx s1 (length (rest s1))"
    unfolding l s1_def using miss by (rule search_from_miss)
  also have "\<dots> = Some m" using m(1) by (rule search_from_hit)
  finally show ?thesis using m by blast
qed

lemma findall_bullets_from:
  assumes "items \<noteq> []"
    and "\<forall>x\<in>set items. x \<noteq> [] \<and> \<not> isspace (hd x) \<and> NL \<notin> set x"
    and "rest s = pre @ bullets_text items"
    and "(pre = [] \<and> (prev s = None \<or> prev s = Some NL))
         \<or> (pre = [NL] \<and> prev s \<noteq> None \<and> prev s \<noteq> Some NL)"
  shows "findall_from bullet_rx s = items"
  using assms
proof (induction items arbitrary: s pre rule: list_nonempty_induct)
  case (single x)
  have x: "x \<noteq> []" "\<not> isspace (hd x)" "NL \<notin> set x" using single.prems(1) by auto
  have r: "rest s = pre @ str ''- '' @ x @ []"
    using single.prems(2) by (simp add: bullets_text_single)
  obtain m where m: "search_from bullet_rx s (length (rest s)) = Some m" "match_group m 1 = x"
      "rest m = []" "prev m = Some (last x)"
    using search_bullet [OF r single.prems(3) x] by blast
  have "last x \<noteq> NL" using x(1,3) last_in_set by metis
  then have e: "findall_from bullet_rx (m\<lparr>groups := Map.empty\<rparr>) = []"
    using m(3,4) by (intro findall_bullet_end [where c = "last x"]) simp_all
  have "length (rest m) < length (rest s)" by (simp add: m(3) r str_def)
  then show ?case
    using m e by (subst findall_from.simps) simp
next
  case (cons x xs)
  have x: "x \<noteq> []" "\<not> isspace (hd x)" "NL \<notin> set x" using cons.prems(1) by auto
  have r: "rest s = pre @ str ''- '' @ x @ (NL # bullets_text xs)"
    using cons.prems(2) cons.hyps(1) by (simp add: bullets_text_more)
  obtain m where m: "search_from bullet_rx s (length (rest s)) = Some m" "match_group m 1 = x"
      "rest m = NL # bullets_text xs" "prev m = Some (last x)"
    using search_bullet [OF r cons.prems(3) x] by auto
  have lx: "last x \<noteq> NL" using x(1,3) last_in_set by metis
  have "findall_from bullet_rx (m\<lparr>groups := Map.empty\<rparr>) = xs"
  proof (rule cons.IH [where pre = "[NL]"])
    show "\<forall>x\<in>set xs. x \<noteq> [] \<and> \<not> isspace (hd x) \<and> NL \<notin> set x"
      using cons.prems(1) by simp
    show "rest (m\<lparr>groups := Map.empty\<rparr>) = [NL] @ bullets_text xs" by (simp add: m(3))
    show "([NL] = [] \<and> (prev (m\<lparr>groups := Map.empty\<rparr>) = None \<or> prev (m\<lparr>groups := Map.empty\<rparr>) = Some NL))
         \<or> ([NL] = [NL] \<and> prev (m\<lparr>groups := Map.empty\<rparr>) \<noteq> None \<and> prev (m\<lparr>groups := Map.empty\<rparr>) \<noteq> Some NL)"
      using lx by (simp add: m(4))
  qed
  moreover have "length (rest m) < length (rest s)" by (simp add: m(3) r str_def)
  ultimately show ?case
    using m by (subst findall_from.simps) simp
qed

lemma findall_bullets:
  assumes "items \<noteq> []"
    and "\<forall>x\<in>set items. x \<noteq> [] \<and> \<not> isspace (hd x) \<and> NL \<notin> set x"
  shows "findall bullet_rx (bullets_text items) = items"
  unfolding findall_def
  by (rule findall_bullets_from [OF assms, where pre = "[]"]) (simp_all add: start_state_def)

lemma bullets_text_hd: "xs \<noteq> [] \<Longrightarrow> bullets_text xs \<noteq> [] \<and> hd (bullets_text xs) = 45"
proof (cases xs)
  case Nil
  assume "xs \<noteq> []"
  with Nil show ?thesis by simp
next
  case (Cons a l)
  then show ?thesis
    by (cases l) (simp_all add: bullets_text_single bullets_text_Cons str_def)
qed

lemma split_at_first:
  assumes "c \<notin> set a" and "a @ c # b = u @ c # r"
  shows "(u = a \<and> r = b) \<or> (\<exists>v. u = a @ c # v \<and> b = v @ c # r)"
  using assms by (auto simp: append_eq_append_conv2 Cons_eq_append_conv append_eq_Cons_conv)

lemma bullets_after_newline:
  assumes "items \<noteq> []" and "\<forall>x\<in>set items. NL \<notin> set x"
    and "bullets_text items = u @ NL # r"
  shows "r \<noteq> [] \<and> hd r = 45"
  using assms
proof (induction items arbitrary: u rule: list_nonempty_induct)
  case (single x)
  have "NL \<in> set (bullets_text [x])" unfolding single.prems(2) by simp
  then show ?case using single.prems(1) by (simp add: bullets_text_single str_def)
next
  case (cons x xs)
  have b: "(45 # 32 # x) @ NL # bullets_text xs = u @ NL # r"
    using cons.prems(2) cons.hyps(1) by (simp add: bullets_text_more str_def)
  have nx: "NL \<notin> set (45 # 32 # x)" using cons.prems(1) by simp
  from split_at_first [OF nx b]
  show ?case
  proof
    assume "u = 45 # 32 # x \<and> r = bullets_text xs"
    then show ?thesis using bullets_text_hd [OF cons.hyps(1)] by simp
  next
    assume "\<exists>v. u = (45 # 32 # x) @ NL # v \<and> bullets_text xs = v @ NL # r"
    then obtain v where "bullets_text xs = v @ NL # r" by blast
    then show ?thesis using cons.IH cons.prems(1) by simp
  qed
qed

lemma contains_drop: "contains (drop i s) sub \<Longrightarrow> contains s sub"
proof (induction s arbitrary: i)
  case Nil
  then show ?case by simp
next
  case (Cons c cs)
  then show ?case by (cases i) auto
qed

lemma startswith_contains: "startswith s sub \<Longrightarrow> contains s sub"
  by (cases s) (auto simp: startswith_def)

lemma no_occurrence: "\<not> contains s sub \<Longrightarrow> \<not> startswith (drop i s) sub"
  using contains_drop startswith_contains by blast

lemma no_occurrence_before:
  assumes "\<not> contains pre sub" and "pre \<noteq> []" and "last pre \<notin> set sub" and "i < length pre"
  shows "\<not> startswith (drop i (pre @ r)) sub"
proof -
  have "drop i pre \<noteq> []" using assms(4) by simp
  moreover have "last (drop i pre) \<notin> set sub" using assms(3,4) by simp
  moreover have "\<not> contains (drop i pre) sub" using assms(1) contains_drop by blast
  ultimately have "\<not> startswith (drop i pre @ r) sub" by (rule not_startswith_piece)
  then show ?thesis using assms(4) by simp
qed

lemma bullets_no_occurrence:
  assumes "\<forall>x\<in>set items. \<not> contains x sep" and "NL \<notin> set sep" and "32 \<notin> set sep"
    and "\<not> contains [45] sep"
  shows "\<not> contains (bullets_text items) sep"
  using assms(1)
proof (induction items rule: induct_list012)
  case 1
  have "sep \<noteq> []" using assms(4) by (auto simp: startswith_def)
  then show ?case by (simp add: bullets_text_def)
next
  case (2 x)
  have "\<not> contains ([45] @ 32 # x) sep"
    using contains_split_at [of "[45]" 32 x sep] assms(3,4) 2 by auto
  then show ?case by (simp add: bullets_text_single str_def)
next
  case (3 x y zs)
  have a: "\<not> contains ([45] @ 32 # x) sep"
    using contains_split_at [of "[45]" 32 x sep] assms(3,4) 3(3) by auto
  have b: "\<not> contains (bullets_text (y # zs)) sep" using 3 by simp
  have "\<not> contains (([45] @ 32 # x) @ NL # bullets_text (y # zs)) sep"
    using contains_split_at [of "[45] @ 32 # x" NL "bullets_text (y # zs)" sep] assms(2) a b
    by blast
  then show ?case by (simp add: bullets_text_Cons str_def)
qed

lemma list_all2_ci_exact:
  "\<forall>c\<in>set mark. c < 65 \<Longrightarrow> list_all2 ci mark ys \<longleftrightarrow> ys = mark"
  by (induction mark arbitrary: ys) (auto simp: list_all2_Cons1 ci_exact)

lemma lit_i_start_miss:
  assumes "\<not> startswith (rest st) mark" and "\<forall>c\<in>set mark. c < 65"
  shows "rx_match (Seq (lit_i mark) R) st k = None"
  using assms by (simp add: rx_match_lit_i list_all2_ci_exact startswith_def)

lemma search_at_header:
  assumes msg: "msg = pre @ r"
    and pre: "\<not> contains pre mark" "pre \<noteq> []" "last pre \<notin> set mark"
    and mark: "\<forall>c\<in>set mark. c < 65"
    and hit: "rx_match (Seq (lit_i mark) R) (advance (length pre) (start_state msg)) Some = Some m"
  shows "search (Seq (lit_i mark) R) msg = Some m"
  unfolding search_def
proof (rule search_from_skip [where j = "length pre"])
  fix i assume "i < length pre"
  then have "\<not> startswith (rest (advance i (start_state msg))) mark"
    using no_occurrence_before [OF pre] by (simp add: start_state_def msg)
  then show "rx_match (Seq (lit_i mark) R) (advance i (start_state msg)) Some = None"
    using mark by (rule lit_i_start_miss)
next
  show "length pre \<le> length msg" by (simp add: msg)
  show "length msg \<le> length (rest (start_state msg))" by (simp add: start_state_def)
  show "rx_match (Seq (lit_i mark) R) (advance (length pre) (start_state msg)) Some = Some m"
    by (rule hit)
qed

lemma search_json_block_none:
  assumes "\<not> contains msg (str ''```json'')"
  shows "search json_block_rx msg = None"
  unfolding search_def
proof (rule search_from_none)
  fix i
  have "\<not> startswith (rest (advance i (start_state msg))) (str ''```json'')"
    using no_occurrence [OF assms] by (simp add: start_state_def)
  then show "rx_match json_block_rx (advance i (start_state msg)) Some = None"
    by (simp add: json_block_rx_def rx_match_lit del: rx_match.simps(5,6))
next
  show "length msg \<le> length (rest (start_state msg))" by (simp add: start_state_def)
qed

lemma clean_message_plain:
  assumes "strip msg = msg" and "\<not> startswith msg (str ''```json'')"
  shows "clean_message msg = msg"
  using assms by (simp add: clean_message_def Let_def)

lemma parsed_json_prose:
  assumes "strip msg = msg" and "\<not> contains msg (str ''```json'')"
    and "\<not> startswith msg (str ''{'')"
  shows "parsed_json lib msg = Inr JNull"
proof -
  have "\<not> startswith msg (str ''```json'')"
    using assms(2) startswith_contains by blast
  with assms(1) have "clean_message msg = msg" by (rule clean_message_plain)
  then have "direct_json lib msg = Inr JNull" using assms(3) by (simp add: direct_json_def)
  moreover have "block_json lib msg = Inr JNull"
    using search_json_block_none [OF assms(2)] by (simp add: block_json_def)
  ultimately show ?thesis by (simp add: parsed_json_def)
qed

lemma str_of_nat_digits: "str_of_nat n \<noteq> [] \<and> list_all ascii_digit (str_of_nat n)"
proof (induction n rule: str_of_nat.induct)
  case (1 n)
  have d: "ascii_digit (48 + n mod 10)"
    using mod_less_divisor [of 10 n] by (simp add: ascii_digit_def)
  show ?case
  proof (cases "n < 10")
    case True
    then have "str_of_nat n = [48 + n]" by (subst str_of_nat.simps) simp
    moreover have "ascii_digit (48 + n)" using True by (simp add: ascii_digit_def)
    ultimately show ?thesis by simp
  next
    case False
    then have "str_of_nat n = str_of_nat (n div 10) @ [48 + n mod 10]"
      by (subst str_of_nat.simps) simp
    then show ?thesis using 1 False d by simp
  qed
qed

lemma digits_value_str_of_nat: "digits_value (str_of_nat n) = n"
proof (induction n rule: str_of_nat.induct)
  case (1 n)
  show ?case
  proof (cases "n < 10")
    case True
    then show ?thesis by (subst str_of_nat.simps) (simp add: digits_value_def)
  next
    case False
    then have "digits_value (str_of_nat (n div 10)) = n div 10" using 1 by simp
    then show ?thesis
      using False by (subst str_of_nat.simps) (simp add: digits_value_def)
  qed
qed

lemma digits_no_char:
  "list_all ascii_digit ds \<Longrightarrow> c < 48 \<Longrightarrow> c \<notin> set ds"
  by (auto simp: list_all_iff ascii_digit_def)

lemma float_of_str_nat:
  "float_of_str lib (str_of_nat n) =
     Some (if real_of_int float_limit \<le> real n then PyInf
           else PyFloat (round_float lib (real n)))"
proof -
  have d: "str_of_nat n \<noteq> []" "list_all ascii_digit (str_of_nat n)"
    using str_of_nat_digits by simp_all
  have "46 \<notin> set (str_of_nat n)" using d(2) by (rule digits_no_char) simp
  then have "split_chr 46 (str_of_nat n) = [str_of_nat n]" by (rule split_chr_no_sep)
  then have "decimal_value (str_of_nat n) = Some (real n)"
    using d by (simp add: decimal_value_def is_digits_def digits_value_str_of_nat)
  then show ?thesis by (simp add: float_of_str_def)
qed

lemma takeWhile_digits:
  assumes "list_all ascii_digit ds" and "c < 48"
  shows "takeWhile (digit lib) (ds @ c # r) = ds"
proof -
  have "\<forall>x\<in>set ds. digit lib x" using assms(1) by (simp add: list_all_iff digit_def)
  moreover have "\<not> digit lib c" using assms(2) by (simp add: digit_def ascii_digit_def)
  ultimately show ?thesis by (simp add: takeWhile_append2)
qed

lemma rep_lazy_zero:
  "k st = Some r \<Longrightarrow> rx_match (Rep P 0 False) st k = Some r"
  by (rule rep_lazy_hit [where j = 0]) simp_all

lemma match_score_rx:
  assumes r: "rest st = str ''3.'' @ 32 # str ''Overall quality score'' @ 58 # 32 # ds
                          @ str ''/10'' @ post"
    and ds: "ds \<noteq> []" "list_all ascii_digit ds"
  shows "\<exists>m. rx_match (score_rx lib) st Some = Some m \<and> match_group m 1 = ds"
proof -
  let ?title = "str ''Overall quality score''"
  define s1 where "s1 = advance (length (str ''3.'')) st"
  define s2 where "s2 = advance 1 s1"
  define s3 where "s3 = advance (length ?title) s2"
  define s4 where "s4 = advance (length (str '':'')) s3"
  define s5 where "s5 = advance 1 s4"
  define s6 where "s6 = advance (length ds) s5"
  define g6 where "g6 = s6\<lparr>groups := (groups s6)(1 \<mapsto> ds)\<rparr>"
  define s7 where "s7 = advance (length (str ''/'')) g6"
  define m where "m = advance (length (str ''10'')) s7"
  let ?num = "seq [Rep (digit lib) 1 True, opt (seq [lit_i (str ''.''), Rep (digit lib) 1 True])]"
  let ?slash = "Alt (lit_i (str ''/'')) (lit_i (str ''out of''))"
  let ?p10 = "lit_i (str ''10'')"
  let ?p9 = "seq [Rep isspace 0 True, ?p10]"
  let ?p8 = "seq [?slash, Rep isspace 0 True, ?p10]"
  let ?p7 = "seq [Rep isspace 0 True, ?slash, Rep isspace 0 True, ?p10]"
  let ?p6 = "seq [Group 1 ?num, Rep isspace 0 True, ?slash, Rep isspace 0 True, ?p10]"
  let ?p5 = "seq [Rep any_char 0 False, Group 1 ?num, Rep isspace 0 True, ?slash,
                  Rep isspace 0 True, ?p10]"
  let ?p4 = "seq [Rep isspace 0 True, Rep any_char 0 False, Group 1 ?num, Rep isspace 0 True,
                  ?slash, Rep isspace 0 True, ?p10]"
  let ?p3 = "seq [opt (lit_i (str '':'')), Rep isspace 0 True, Rep any_char 0 False,
                  Group 1 ?num, Rep isspace 0 True, ?slash, Rep isspace 0 True, ?p10]"
  let ?p2 = "seq [lit_i ?title, opt (lit_i (str '':'')), Rep isspace 0 True,
                  Rep any_char 0 False, Group 1 ?num, Rep isspace 0 True, ?slash,
                  Rep isspace 0 True, ?p10]"
  let ?p1 = "seq [Rep isspace 0 True, lit_i ?title, opt (lit_i (str '':'')),
                  Rep isspace 0 True, Rep any_char 0 False, Group 1 ?num, Rep isspace 0 True,
                  ?slash, Rep isspace 0 True, ?p10]"
  obtain d ds' where dd: "ds = d # ds'" using ds(1) by (cases ds) auto
  have d: "\<not> isspace d" using ds(2) by (auto simp: dd ascii_digit_def isspace_def)
  have r1: "rest s1 = 32 # ?title @ 58 # 32 # ds @ str ''/10'' @ post"
    using r by (simp add: s1_def)
  have r2: "rest s2 = ?title @ 58 # 32 # ds @ str ''/10'' @ post"
    using r1 by (simp add: s2_def)
  have r3: "rest s3 = str '':'' @ 32 # ds @ str ''/10'' @ post"
    using r2 by (simp add: s3_def str_def)
  have r4: "rest s4 = 32 # ds @ str ''/10'' @ post"
    using r3 by (simp add: s4_def)
  have r5: "rest s5 = ds @ 47 # str ''10'' @ post"
    using r4 by (simp add: s5_def str_def)
  have r6: "rest s6 = str ''/'' @ str ''10'' @ post"
    using r5 by (simp add: s6_def str_def)
  have rg: "rest g6 = str ''/'' @ str ''10'' @ post"
    using r6 by (simp add: g6_def)
  have r7: "rest s7 = str ''10'' @ post"
    using rg by (simp add: s7_def)
  have f10: "rx_match ?p10 s7 Some = Some m"
    unfolding m_def using r7 by (rule rx_match_lit_i_hit)
  have f9: "rx_match ?p9 s7 Some = Some m"
  proof -
    have "takeWhile isspace (rest s7) = []" by (simp add: r7 str_def isspace_def)
    then have "rx_match (Rep isspace 0 True) s7 (\<lambda>s. rx_match ?p10 s Some)
                 = rx_match ?p10 s7 Some"
      by (rule rep_greedy_zero)
    then show ?thesis using f10 by (simp del: rx_match.simps(5,6))
  qed
  have f8: "rx_match ?p8 g6 Some = Some m"
  proof -
    have "rx_match (lit_i (str ''/'')) g6 (\<lambda>s. rx_match ?p9 s Some) = rx_match ?p9 s7 Some"
      unfolding s7_def using rg by (rule rx_match_lit_i_hit)
    then show ?thesis using f9 by (simp del: rx_match.simps(5,6))
  qed
  have f7: "rx_match ?p7 g6 Some = Some m"
  proof -
    have "takeWhile isspace (rest g6) = []" by (simp add: rg str_def isspace_def)
    then have "rx_match (Rep isspace 0 True) g6 (\<lambda>s. rx_match ?p8 s Some)
                 = rx_match ?p8 g6 Some"
      by (rule rep_greedy_zero)
    then show ?thesis using f8 by (simp del: rx_match.simps(5,6))
  qed
  have f6: "rx_match ?p6 s5 Some = Some m"
  proof -
    let ?K = "\<lambda>st'. rx_match ?p7
                (st'\<lparr>groups := (groups st')(1 \<mapsto> take (pos st' - pos s5) (rest s5))\<rparr>) Some"
    let ?frac = "seq [lit_i (str ''.''), Rep (digit lib) 1 True]"
    have t: "takeWhile (digit lib) (rest s5) = ds"
      unfolding r5 using ds(2) by (rule takeWhile_digits) simp
    have "rx_match (lit_i (str ''.'')) s6 (\<lambda>s. rx_match (Rep (digit lib) 1 True) s ?K) = None"
    proof -
      have "rx_match (lit_i (46 # [])) s6 (\<lambda>s. rx_match (Rep (digit lib) 1 True) s ?K) = None"
      proof (rule rx_match_lit_i_miss)
        show "rest s6 = 47 # str ''10'' @ post" by (simp add: r6 str_def)
        show "\<not> ci 46 47" by (simp add: ci_exact)
      qed
      then show ?thesis by (simp add: str_def)
    qed
    then have "rx_match ?frac s6 ?K = None" by (simp del: rx_match.simps(5,6))
    moreover have "?K s6 = Some m"
      using f7 by (simp add: s6_def r5 g6_def del: rx_match.simps(5,6))
    ultimately have o: "rx_match (opt ?frac) s6 ?K = Some m"
      by (simp add: opt_def del: rx_match.simps(5,6))
    have "rx_match (Rep (digit lib) 1 True) s5 (\<lambda>s. rx_match (opt ?frac) s ?K) = Some m"
    proof (rule rep_greedy_hit)
      show "1 \<le> length (takeWhile (digit lib) (rest s5))" using ds(1) by (simp add: t Suc_le_eq)
      show "rx_match (opt ?frac) (advance (length (takeWhile (digit lib) (rest s5))) s5) ?K = Some m"
        using o by (simp add: t s6_def)
    qed
    then show ?thesis by (simp del: rx_match.simps(5))
  qed
  have f5: "rx_match ?p5 s5 Some = Some m"
  proof -
    have "rx_match (Rep any_char 0 False) s5 (\<lambda>s. rx_match ?p6 s Some) = Some m"
      using f6 by (rule rep_lazy_zero)
    then show ?thesis by (simp del: rx_match.simps(5,6))
  qed
  have f4: "rx_match ?p4 s4 Some = Some m"
  proof -
    have t: "takeWhile isspace (rest s4) = [32]"
      using d by (simp add: r4 dd isspace_def)
    have "rx_match (Rep isspace 0 True) s4 (\<lambda>s. rx_match ?p5 s Some) = Some m"
    proof (rule rep_greedy_hit)
      show "0 \<le> length (takeWhile isspace (rest s4))" by simp
      show "rx_match ?p5 (advance (length (takeWhile isspace (rest s4))) s4) Some = Some m"
        using f5 by (simp add: t s5_def del: rx_match.simps(5,6))
    qed
    then show ?thesis by (simp del: rx_match.simps(5,6))
  qed
  have f3: "rx_match ?p3 s3 Some = Some m"
  proof -
    have "rx_match (lit_i (str '':'')) s3 (\<lambda>s. rx_match ?p4 s Some) = rx_match ?p4 s4 Some"
      unfolding s4_def using r3 by (rule rx_match_lit_i_hit)
    then show ?thesis
      using f4 by (simp add: opt_def del: rx_match.simps(5,6))
  qed
  have f2: "rx_match ?p2 s2 Some = Some m"
  proof -
    have "rx_match (lit_i ?title) s2 (\<lambda>s. rx_match ?p3 s Some) = rx_match ?p3 s3 Some"
      unfolding s3_def using r2 by (rule rx_match_lit_i_hit)
    then show ?thesis
      using f3 by (simp del: rx_match.simps(5,6))
  qed
  have f1: "rx_match ?p1 s1 Some = Some m"
  proof -
    have t: "takeWhile isspace (rest s1) = [32]"
      by (simp add: r1 str_def isspace_def)
    have "rx_match (Rep isspace 0 True) s1 (\<lambda>s. rx_match ?p2 s Some) = Some m"
    proof (rule rep_greedy_hit)
      show "0 \<le> length (takeWhile isspace (rest s1))" by simp
      show "rx_match ?p2 (advance (length (takeWhile isspace (rest s1))) s1) Some = Some m"
        using f2 by (simp add: t s2_def del: rx_match.simps(5,6))
    qed
    then show ?thesis by (simp del: rx_match.simps(5,6))
  qed
  have f0: "rx_match (score_rx lib) st Some = Some m"
  proof -
    have "rx_match (lit_i (str ''3.'')) st (\<lambda>s. rx_match ?p1 s Some) = rx_match ?p1 s1 Some"
      unfolding s1_def using r by (rule rx_match_lit_i_hit)
    then show ?thesis
      using f1 by (simp add: score_rx_def del: rx_match.simps(5,6))
  qed
  moreover have "match_group m 1 = ds"
    by (simp add: m_def s7_def g6_def match_group_def)
  ultimately show ?thesis by blast
qed

lemma no_contains_lines:
  "\<not> contains u sep \<Longrightarrow> \<not> contains v sep \<Longrightarrow> NL \<notin> set sep \<Longrightarrow> \<not> contains (u @ NL # v) sep"
  using contains_split_at by blast

lemma bullets_text_last:
  assumes "items \<noteq> []" and "\<forall>x\<in>set items. x \<noteq> []"
  shows "last (bullets_text items) = last (last items)"
  using assms
proof (induction items rule: list_nonempty_induct)
  case (single x)
  then show ?case by (simp add: bullets_text_single str_def)
next
  case (cons x xs)
  have "bullets_text xs \<noteq> []" using bullets_text_hd [OF cons.hyps(1)] by simp
  then show ?case
    using cons by (simp add: bullets_text_more str_def)
qed

lemma strip_bullets:
  assumes "items \<noteq> []" and "list_all plain_item items"
  shows "strip (bullets_text items) = bullets_text items"
proof -
  have ne: "\<forall>x\<in>set items. x \<noteq> []"
    using assms(2) by (simp add: list_all_iff plain_item_def)
  have "last items \<in> set items" using assms(1) by simp
  then have "\<not> isspace (last (last items))"
    using assms(2) by (simp add: list_all_iff plain_item_def)
  then have "\<not> isspace (last (bullets_text items))"
    using bullets_text_last [OF assms(1) ne] by simp
  moreover have "\<not> isspace (hd (bullets_text items))"
    using bullets_text_hd [OF assms(1)] by (simp add: isspace_def)
  ultimately show ?thesis by (simp add: strip_id)
qed

lemma section_items_bullets:
  assumes "items \<noteq> []" and "list_all plain_item items"
  shows "section_items lib (strip (bullets_text items)) = map JStr items"
proof -
  have "\<forall>x\<in>set items. x \<noteq> [] \<and> \<not> isspace (hd x) \<and> NL \<notin> set x"
    using assms(2) by (simp add: list_all_iff plain_item_def)
  with assms(1) have f: "findall bullet_rx (bullets_text items) = items"
    by (rule findall_bullets)
  have "\<forall>x\<in>set items. strip x = x"
    using assms(2) by (simp add: list_all_iff plain_item_def strip_id)
  then have s: "map strip items = items" by (simp add: map_idI)
  have "\<forall>x\<in>set items. x \<noteq> []"
    using assms(2) by (simp add: list_all_iff plain_item_def)
  then have "filter (\<lambda>item. item \<noteq> []) items = items" by simp
  then show ?thesis
    using assms(1) by (simp add: section_items_def strip_bullets [OF assms] f s)
qed

lemma bullets_no_marker:
  assumes "list_all plain_item items"
  shows "\<not> contains (bullets_text items) (str ''2.'')"
    and "\<not> contains (bullets_text items) (str ''3.'')"
    and "\<not> contains (bullets_text items) (str ''```json'')"
proof -
  have a: "\<forall>x\<in>set items. \<not> contains x (str ''2.'')"
    and b: "\<forall>x\<in>set items. \<not> contains x (str ''3.'')"
    and c: "\<forall>x\<in>set items. \<not> contains x (str ''```json'')"
    using assms by (simp_all add: list_all_iff plain_item_def)
  show "\<not> contains (bullets_text items) (str ''2.'')"
    using a by (rule bullets_no_occurrence) (simp_all add: str_def startswith_def)
  show "\<not> contains (bullets_text items) (str ''3.'')"
    using b by (rule bullets_no_occurrence) (simp_all add: str_def startswith_def)
  show "\<not> contains (bullets_text items) (str ''```json'')"
    using c by (rule bullets_no_occurrence) (simp_all add: str_def startswith_def)
qed

lemma bullets_nolook:
  assumes "items \<noteq> []" and "list_all plain_item items"
    and "bullets_text items = u @ NL # r"
  shows "r \<noteq> [] \<and> \<not> isspace (hd r) \<and> \<not> ci 50 (hd r) \<and> \<not> ci 51 (hd r)"
proof -
  have "\<forall>x\<in>set items. NL \<notin> set x"
    using assms(2) by (simp add: list_all_iff plain_item_def)
  from bullets_after_newline [OF assms(1) this assms(3)]
  show ?thesis by (simp add: isspace_def ci_exact)
qed

lemma rest_after_prefix: "rest (advance (length pre) (start_state (pre @ r))) = r"
  by (simp add: start_state_def)

lemma search_quality_prose:
  assumes "issues \<noteq> []" and "list_all plain_item issues"
  shows "\<exists>m. search quality_rx (numbered_prose issues practices score) = Some m
            \<and> match_group m 1 = bullets_text issues"
proof -
  let ?msg = "numbered_prose issues practices score"
  let ?post = "32 # str ''Good practices:'' @ NL # bullets_text practices @ NL
                 # str ''3. Overall quality score: '' @ str_of_nat score @ str ''/10''"
  have r: "rest (start_state ?msg) = str ''1.'' @ 32 # str ''Code quality issues'' @ 58 # NL
             # bullets_text issues @ NL # str ''2.'' @ ?post"
    by (simp add: start_state_def numbered_prose_def str_def)
  have b: "bullets_text issues \<noteq> []" "\<not> isspace (hd (bullets_text issues))"
    using bullets_text_hd [OF assms(1)] by (simp_all add: isspace_def)
  have "\<exists>m. rx_match (section_rx (str ''1.'') (str ''Code quality issues'') (str ''2.''))
              (start_state ?msg) Some = Some m \<and> match_group m 1 = bullets_text issues"
  proof (rule match_section_rx [OF r _ _ b])
    show "str ''Code quality issues'' \<noteq> []" by (simp add: str_def)
    show "\<not> isspace (hd (str ''Code quality issues''))" by (simp add: str_def isspace_def)
    show "str ''2.'' \<noteq> []" by (simp add: str_def)
    show "\<not> isspace (hd (str ''2.''))" by (simp add: str_def isspace_def)
    fix u r'
    assume "bullets_text issues = u @ NL # r'"
    from bullets_nolook [OF assms this]
    show "r' \<noteq> [] \<and> \<not> isspace (hd r') \<and> \<not> ci (hd (str ''2.'')) (hd r')"
      by (simp add: str_def)
  qed
  then obtain m where m: "rx_match quality_rx (start_state ?msg) Some = Some m"
      "match_group m 1 = bullets_text issues"
    unfolding quality_rx_def by blast
  from m(1) have "search quality_rx ?msg = Some m"
    unfolding search_def by (rule search_from_hit)
  with m(2) show ?thesis by blast
qed

lemma search_practices_prose:
  assumes "list_all plain_item issues" and "practices \<noteq> []" and "list_all plain_item practices"
  shows "\<exists>m. search practices_rx (numbered_prose issues practices score) = Some m
            \<and> match_group m 1 = bullets_text practices"
proof -
  let ?msg = "numbered_prose issues practices score"
  let ?pre = "str ''1. Code quality issues:'' @ NL # bullets_text issues @ [NL]"
  let ?post = "32 # str ''Overall quality score: '' @ str_of_nat score @ str ''/10''"
  let ?r = "str ''2.'' @ 32 # str ''Good practices'' @ 58 # NL
             # bullets_text practices @ NL # str ''3.'' @ ?post"
  let ?R = "seq [Rep isspace 0 True, lit_i (str ''Good practices''), opt (lit_i (str '':'')),
                 Rep isspace 0 True, lit_i [NL], Group 1 (Rep any_char 0 False),
                 Look (Alt (seq [lit_i [NL], Rep isspace 0 True, lit_i (str ''3.'')]) Eos)]"
  define st where "st = advance (length ?pre) (start_state ?msg)"
  have rx: "practices_rx = Seq (lit_i (str ''2.'')) ?R"
    by (simp add: practices_rx_def section_rx_def)
  have msg: "?msg = ?pre @ ?r"
    by (simp add: numbered_prose_def str_def)
  have r: "rest st = ?r"
    unfolding st_def msg by (rule rest_after_prefix)
  have b: "bullets_text practices \<noteq> []" "\<not> isspace (hd (bullets_text practices))"
    using bullets_text_hd [OF assms(2)] by (simp_all add: isspace_def)
  have "\<exists>m. rx_match (section_rx (str ''2.'') (str ''Good practices'') (str ''3.''))
              st Some = Some m \<and> match_group m 1 = bullets_text practices"
  proof (rule match_section_rx [OF r _ _ b])
    show "str ''Good practices'' \<noteq> []" by (simp add: str_def)
    show "\<not> isspace (hd (str ''Good practices''))" by (simp add: str_def isspace_def)
    show "str ''3.'' \<noteq> []" by (simp add: str_def)
    show "\<not> isspace (hd (str ''3.''))" by (simp add: str_def isspace_def)
    fix u r'
    assume "bullets_text practices = u @ NL # r'"
    from bullets_nolook [OF assms(2,3) this]
    show "r' \<noteq> [] \<and> \<not> isspace (hd r') \<and> \<not> ci (hd (str ''3.'')) (hd r')"
      by (simp add: str_def)
  qed
  then obtain m where m: "rx_match (Seq (lit_i (str ''2.'')) ?R) st Some = Some m"
      "match_group m 1 = bullets_text practices"
    unfolding practices_rx_def [symmetric] rx by blast
  have "search (Seq (lit_i (str ''2.'')) ?R) ?msg = Some m"
  proof (rule search_at_header [OF msg])
    have nl: "NL \<notin> set (str ''2.'')" by (simp add: str_def)
    have e: "\<not> contains [] (str ''2.'')" by (simp add: str_def)
    have h: "\<not> contains (str ''1. Code quality issues:'') (str ''2.'')"
      by (simp add: str_def startswith_def)
    from no_contains_lines [OF bullets_no_marker(1) [OF assms(1)] e nl]
    have "\<not> contains (bullets_text issues @ [NL]) (str ''2.'')" .
    from no_contains_lines [OF h this nl]
    show "\<not> contains ?pre (str ''2.'')" .
    show "?pre \<noteq> []" by simp
    show "last ?pre \<notin> set (str ''2.'')" by (simp add: str_def)
    show "\<forall>c\<in>set (str ''2.''). c < 65" by (simp add: str_def)
    show "rx_match (Seq (lit_i (str ''2.'')) ?R) (advance (length ?pre) (start_state ?msg)) Some
            = Some m"
      using m(1) by (simp only: st_def)
  qed
  then show ?thesis using m(2) by (simp only: rx) blast
qed

lemma search_score_prose:
  assumes "list_all plain_item issues" and "list_all plain_item practices"
  shows "\<exists>m. search (score_rx lib) (numbered_prose issues practices score) = Some m
            \<and> match_group m 1 = str_of_nat score"
proof -
  let ?msg = "numbered_prose issues practices score"
  let ?pre = "str ''1. Code quality issues:'' @ NL # bullets_text issues @ NL
                # str ''2. Good practices:'' @ NL # bullets_text practices @ [NL]"
  let ?r = "str ''3.'' @ 32 # str ''Overall quality score'' @ 58 # 32 # str_of_nat score
              @ str ''/10'' @ []"
  let ?R = "seq [Rep isspace 0 True, lit_i (str ''Overall quality score''),
          opt (lit_i (str '':'')), Rep isspace 0 True, Rep any_char 0 False,
          Group 1 (seq [Rep (digit lib) 1 True,
                        opt (seq [lit_i (str ''.''), Rep (digit lib) 1 True])]),
          Rep isspace 0 True, Alt (lit_i (str ''/'')) (lit_i (str ''out of'')),
          Rep isspace 0 True, lit_i (str ''10'')]"
  define st where "st = advance (length ?pre) (start_state ?msg)"
  have rx: "score_rx lib = Seq (lit_i (str ''3.'')) ?R"
    by (simp add: score_rx_def)
  have msg: "?msg = ?pre @ ?r"
    by (simp add: numbered_prose_def str_def)
  have r: "rest st = ?r"
    unfolding st_def msg by (rule rest_after_prefix)
  have d: "str_of_nat score \<noteq> []" "list_all ascii_digit (str_of_nat score)"
    using str_of_nat_digits by simp_all
  obtain m where m: "rx_match (Seq (lit_i (str ''3.'')) ?R) st Some = Some m"
      "match_group m 1 = str_of_nat score"
    using match_score_rx [OF r d, of lib] unfolding rx by blast
  have "search (Seq (lit_i (str ''3.'')) ?R) ?msg = Some m"
  proof (rule search_at_header [OF msg])
    have nl: "NL \<notin> set (str ''3.'')" by (simp add: str_def)
    have e: "\<not> contains [] (str ''3.'')" by (simp add: str_def)
    have h1: "\<not> contains (str ''1. Code quality issues:'') (str ''3.'')"
      by (simp add: str_def startswith_def)
    have h2: "\<not> contains (str ''2. Good practices:'') (str ''3.'')"
      by (simp add: str_def startswith_def)
    from no_contains_lines [OF bullets_no_marker(2) [OF assms(2)] e nl]
    have "\<not> contains (bullets_text practices @ [NL]) (str ''3.'')" .
    from no_contains_lines [OF h2 this nl]
    have "\<not> contains (str ''2. Good practices:'' @ NL # bullets_text practices @ [NL])
            (str ''3.'')" .
    from no_contains_lines [OF bullets_no_marker(2) [OF assms(1)] this nl]
    have "\<not> contains (bullets_text issues @ NL # str ''2. Good practices:'' @ NL
              # bullets_text practices @ [NL]) (str ''3.'')" .
    from no_contains_lines [OF h1 this nl]
    show "\<not> contains ?pre (str ''3.'')" .
    show "?pre \<noteq> []" by simp
    show "last ?pre \<notin> set (str ''3.'')" by (simp add: str_def)
    show "\<forall>c\<in>set (str ''3.''). c < 65" by (simp add: str_def)
    show "rx_match (Seq (lit_i (str ''3.'')) ?R) (advance (length ?pre) (start_state ?msg)) Some
            = Some m"
      using m(1) by (simp only: st_def)
  qed
  then show ?thesis using m(2) by (simp only: rx) blast
qed

lemma digits_no_backtick: "list_all ascii_digit ds \<Longrightarrow> 96 \<notin> set ds"
  by (auto simp: list_all_iff ascii_digit_def)

lemma parsed_json_numbered_prose:
  assumes "list_all plain_item issues" and "list_all plain_item practices"
  shows "parsed_json lib (numbered_prose issues practices score) = Inr JNull"
proof (rule parsed_json_prose)
  let ?msg = "numbered_prose issues practices score"
  let ?last = "str ''3. Overall quality score: '' @ str_of_nat score @ str ''/10''"
  have h: "hd ?msg = 49" "?msg \<noteq> []" by (simp_all add: numbered_prose_def str_def)
  have "?msg = (str ''1. Code quality issues:'' @ NL # bullets_text issues @ NL
                 # str ''2. Good practices:'' @ NL # bullets_text practices @ NL
                 # str ''3. Overall quality score: '' @ str_of_nat score) @ [47, 49, 48]"
    by (simp add: numbered_prose_def str_def)
  then have l: "last ?msg = 48" by (simp only: last_appendR) simp
  show "strip ?msg = ?msg"
    using h l by (simp add: strip_id isspace_def)
  show "\<not> startswith ?msg (str ''{'')"
    using h by (cases ?msg) (simp_all add: startswith_def str_def)
  have nl: "NL \<notin> set (str ''```json'')" by (simp add: str_def)
  have h1: "\<not> contains (str ''1. Code quality issues:'') (str ''```json'')"
    by (simp add: str_def startswith_def)
  have h2: "\<not> contains (str ''2. Good practices:'') (str ''```json'')"
    by (simp add: str_def startswith_def)
  have h3: "\<not> contains ?last (str ''```json'')"
  proof
    assume "contains ?last (str ''```json'')"
    then have "set (str ''```json'') \<subseteq> set ?last" by (rule contains_set)
    then have "96 \<in> set ?last" by (simp add: str_def)
    then have "96 \<in> set (str_of_nat score)" by (simp add: str_def)
    then show False using digits_no_backtick str_of_nat_digits by blast
  qed
  from no_contains_lines [OF bullets_no_marker(3) [OF assms(2)] h3 nl]
  have "\<not> contains (bullets_text practices @ NL # ?last) (str ''```json'')" .
  from no_contains_lines [OF h2 this nl]
  have "\<not> contains (str ''2. Good practices:'' @ NL # bullets_text practices @ NL # ?last)
          (str ''```json'')" .
  from no_contains_lines [OF bullets_no_marker(3) [OF assms(1)] this nl]
  have "\<not> contains (bullets_text issues @ NL # str ''2. Good practices:'' @ NL
            # bullets_text practices @ NL # ?last) (str ''```json'')" .
  from no_contains_lines [OF h1 this nl]
  have "\<not> contains (str ''1. Code quality issues:'' @ NL # bullets_text issues @ NL
            # str ''2. Good practices:'' @ NL # bullets_text practices @ NL # ?last)
          (str ''```json'')" .
  then show "\<not> contains ?msg (str ''```json'')"
    by (simp add: numbered_prose_def)
qed

text \<open>
  On prose with the three numbered sections, the items of the first two as lines behind
  \<open>- \<close> and the score as \<open>n/10\<close>: for every library, both JSON tiers find nothing and
  the third tier returns the items of each section in order, the score \<open>n\<close> as a float,
  and no patterns or anti-patterns.
\<close>

lemma bulleted_prose_result:
  assumes "issues \<noteq> []" and "practices \<noteq> []"
    and "list_all plain_item issues" and "list_all plain_item practices"
  shows "parse_analysis_response lib (reply (numbered_prose issues practices score)) =
     Inr \<lparr>quality_issues = map JStr issues,
          good_practices = map JStr practices,
          patterns = [], anti_patterns = [],
          overall_score = Some (if real_of_int float_limit \<le> real score then PyInf
                                else PyFloat (round_float lib (real score))),
          raw_response = numbered_prose issues practices score,
          error = None\<rparr>"
proof -
  let ?msg = "numbered_prose issues practices score"
  obtain mq where mq: "search quality_rx ?msg = Some mq"
      "match_group mq 1 = bullets_text issues"
    using search_quality_prose [OF assms(1,3)] by blast
  obtain mp where mp: "search practices_rx ?msg = Some mp"
      "match_group mp 1 = bullets_text practices"
    using search_practices_prose [OF assms(3,2,4)] by blast
  obtain ms where ms: "search (score_rx lib) ?msg = Some ms"
      "match_group ms 1 = str_of_nat score"
    using search_score_prose [OF assms(3,4)] by blast
  have "regex_fallback lib ?msg (empty_analysis ?msg None) =
     \<lparr>quality_issues = map JStr issues,
      good_practices = map JStr practices,
      patterns = [], anti_patterns = [],
      overall_score = Some (if real_of_int float_limit \<le> real score then PyInf
                            else PyFloat (round_float lib (real score))),
      raw_response = ?msg, error = None\<rparr>"
    using mq mp ms
    by (simp add: regex_fallback_def empty_analysis_def float_of_str_nat
          section_items_bullets [OF assms(1,3)] section_items_bullets [OF assms(2,4)])
  then show ?thesis
    by (simp add: parse_analysis_response_def reply_def
          parsed_json_numbered_prose [OF assms(3,4)])
qed

section \<open>Diff synthesis: what is emitted for each file\<close>

lemma diff_loop_acc:
  "diff_loop items acc =
     acc @ concat (map (\<lambda>(file_path, content).
        [str ''--- a/'' @ file_path,
         str ''+++ b/'' @ file_path,
         str ''@@ -0,0 +1,'' @ str_of_nat (length (split_chr NL content)) @ str '' @@'']
        @ plus_lines (split_chr NL content) @ [[]]) items)"
  by (induction items arbitrary: acc) (auto simp: Let_def)

lemma rstrip_line:
  "rstrip_chars [CR, NL] line = rev (dropWhile (\<lambda>c. c = CR \<or> c = NL) (rev line))"
  by (simp add: rstrip_chars_def)

lemma generate_diff_content_lines:
  "generate_diff_content repository_files =
     join [NL] (concat (map (\<lambda>(path, content).
        [str ''--- a/'' @ path,
         str ''+++ b/'' @ path,
         str ''@@ -0,0 +1,'' @ str_of_nat (length (split_chr NL content)) @ str '' @@'']
        @ plus_lines (split_chr NL content) @ [[]]) repository_files))"
  by (cases repository_files)
     (simp_all add: generate_diff_content_def diff_loop_acc del: diff_loop.simps)



lemma add_lines_acc:
  "add_lines ls acc = acc @ concat (map (\<lambda>line. str ''+'' @ line @ [NL]) ls)"
  by (induction ls arbitrary: acc) auto

lemma diff_loop_analyzer_acc:
  "diff_loop_analyzer up items acc =
     acc @ concat (map (\<lambda>(path, content).
        if 0 \<in> set content \<or> \<not> isprintable up content then []
        else file_diff_text path
               (if 10000 < length content then take 10000 content @ truncation_marker
                else content)) items)"
proof (induction items arbitrary: acc)
  case Nil
  show ?case by simp
next
  case (Cons a items)
  obtain p c where a: "a = (p, c)" by (cases a)
  show ?case
    unfolding a
    by (simp add: Cons.IH Let_def add_lines_acc file_diff_text_def length_split_chr)
qed

lemma generate_diff_content_analyzer_loop:
  "generate_diff_content_analyzer up repository_files =
     (let blob = diff_loop_analyzer up repository_files []
      in if 100000 < length blob then take 100000 blob @ truncation_marker else blob)"
  by (cases repository_files) (simp_all add: generate_diff_content_analyzer_def Let_def)

lemma not_printable_control:
  "c \<in> set s \<Longrightarrow> c < 32 \<Longrightarrow> \<not> isprintable up s"
  by (force simp: isprintable_def list_all_iff)

lemma str_of_nat_small: "str_of_nat (Suc 0) = str ''1''" "str_of_nat (Suc (Suc 0)) = str ''2''"
  by (simp_all add: str_of_nat.simps str_def)

text \<open>
  C9, as claimed, fails. \<open>generate_diff_content\<close> of main.py has no limit: a content of
  10001 characters is emitted whole and without marker. And \<open>generate_diff_content\<close> of
  analyzer.py drops a content of more than 10000 characters that has a line break, instead
  of truncating it.
\<close>

theorem size_limit_counterexample:
  "generate_diff_content [(str ''a'', replicate 10001 97)] =
     join [NL] [str ''--- a/a'', str ''+++ b/a'', str ''@@ -0,0 +1,1 @@'',
                str ''+'' @ replicate 10001 97, []]
   \<and> generate_diff_content_analyzer (\<lambda>c. True) [(str ''a'', replicate 10001 97 @ [NL])] = []"
proof
  have "split_chr NL (replicate 10001 97) = [replicate 10001 97]"
    by (rule split_chr_no_sep) simp
  then show "generate_diff_content [(str ''a'', replicate 10001 97)] =
     join [NL] [str ''--- a/a'', str ''+++ b/a'', str ''@@ -0,0 +1,1 @@'',
                str ''+'' @ replicate 10001 97, []]"
    by (simp add: generate_diff_content_lines plus_lines_def rstrip_line str_of_nat_small
          dropWhile_replicate)
       (simp add: str_def)
next
  have "\<not> isprintable (\<lambda>c. True) (replicate 10001 97 @ [NL])"
    by (rule not_printable_control [where c = NL]) simp_all
  then show "generate_diff_content_analyzer (\<lambda>c. True) [(str ''a'', replicate 10001 97 @ [NL])] = []"
    by (simp add: generate_diff_content_analyzer_loop)
qed

text \<open>
  C9, amended. \<open>generate_diff_content\<close> of analyzer.py, for every mapping: a file whose
  content has a NUL or is not printable (so every content of more than one line) is
  dropped, whatever its size; every other file is diff-formatted from its content or, when
  the content is longer than 10000 characters, from its first 10000 characters followed by
  the marker \<open>[... TRUNCATED DUE TO SIZE ...]\<close> on a line of its own; and the blob of all
  files, when longer than 100000 characters, is cut to its first 100000 characters and the
  same marker is appended once at the end.
\<close>

theorem generate_diff_content_analyzer_truncates:
  "generate_diff_content_analyzer up repository_files =
     (let blob = concat (map (\<lambda>(path, content).
                   if 0 \<in> set content \<or> \<not> isprintable up content then []
                   else file_diff_text path
                          (if 10000 < length content
                           then take 10000 content @ truncation_marker
                           else content)) repository_files)
      in if 100000 < length blob then take 100000 blob @ truncation_marker else blob)"
  by (simp add: generate_diff_content_analyzer_loop diff_loop_analyzer_acc Let_def)

lemma isprintable_replicate: "isprintable up (replicate n 97)"
  by (simp add: isprintable_def list_all_iff)

lemma split_chr_replicate_marker:
  "split_chr NL (replicate n 97 @ truncation_marker)
     = [replicate n 97, str ''[... TRUNCATED DUE TO SIZE ...]'']"
proof -
  have "NL \<notin> set (replicate n (97::nat))" by simp
  moreover have "split_chr NL (str ''[... TRUNCATED DUE TO SIZE ...]'')
      = [str ''[... TRUNCATED DUE TO SIZE ...]'']"
    by (rule split_chr_no_sep) (simp add: str_def)
  ultimately show ?thesis
    by (simp add: truncation_marker_def split_chr_append)
qed

lemma count_marker: "count_list truncation_marker NL = Suc 0"
  by (simp add: truncation_marker_def str_def)

theorem generate_diff_content_analyzer_truncates_witness:
  "generate_diff_content_analyzer (\<lambda>c. True) [(str ''a'', replicate 10001 97)] =
     str ''--- /dev/null'' @ [NL] @ str ''+++ b/a'' @ [NL] @ str ''@@ -0,0 +1,2 @@'' @ [NL]
     @ str ''+'' @ replicate 10000 97 @ [NL]
     @ str ''+[... TRUNCATED DUE TO SIZE ...]'' @ [NL] @ [NL]
   \<and> generate_diff_content_analyzer (\<lambda>c. True) [(replicate 100000 97, [])] =
     str ''--- /dev/null'' @ [NL] @ str ''+++ b/'' @ replicate 99980 97 @ truncation_marker"
proof
  let ?T = "str ''--- /dev/null'' @ [NL] @ str ''+++ b/a'' @ [NL] @ str ''@@ -0,0 +1,2 @@'' @ [NL]
     @ str ''+'' @ replicate 10000 97 @ [NL]
     @ str ''+[... TRUNCATED DUE TO SIZE ...]'' @ [NL] @ [NL]"
  have blk: "file_diff_text (str ''a'') (replicate 10000 97 @ truncation_marker) = ?T"
    by (simp add: file_diff_text_def count_marker split_chr_replicate_marker str_of_nat_small)
       (simp add: str_def)
  have len: "\<not> 100000 < length ?T"
    by (simp add: str_def)
  have "generate_diff_content_analyzer (\<lambda>c. True) [(str ''a'', replicate 10001 97)] =
      (if 100000 < length (file_diff_text (str ''a'') (replicate 10000 97 @ truncation_marker))
       then take 100000 (file_diff_text (str ''a'') (replicate 10000 97 @ truncation_marker))
              @ truncation_marker
       else file_diff_text (str ''a'') (replicate 10000 97 @ truncation_marker))"
    using generate_diff_content_analyzer_truncates
            [of "\<lambda>c. True" "[(str ''a'', replicate 10001 97)]"]
    by (simp add: isprintable_replicate Let_def)
  then show "generate_diff_content_analyzer (\<lambda>c. True) [(str ''a'', replicate 10001 97)] = ?T"
    by (simp only: blk len if_False)
next
  let ?B = "file_diff_text (replicate 100000 97) []"
  have blk: "?B = str ''--- /dev/null'' @ [NL] @ str ''+++ b/'' @ replicate 100000 97 @ [NL]
       @ str ''@@ -0,0 +1,1 @@'' @ [NL] @ str ''+'' @ [NL] @ [NL]"
    by (simp add: file_diff_text_def str_of_nat_small) (simp add: str_def)
  have tk: "take 100000 ?B = str ''--- /dev/null'' @ [NL] @ str ''+++ b/'' @ replicate 99980 97"
    unfolding blk by (simp add: str_def)
  have len: "100000 < length ?B"
    unfolding blk by simp
  have "generate_diff_content_analyzer (\<lambda>c. True) [(replicate 100000 97, [])] =
      (if 100000 < length ?B then take 100000 ?B @ truncation_marker else ?B)"
    using generate_diff_content_analyzer_truncates
            [of "\<lambda>c. True" "[(replicate 100000 97, [])]"]
    by (simp add: isprintable_def Let_def)
  then show "generate_diff_content_analyzer (\<lambda>c. True) [(replicate 100000 97, [])] =
     str ''--- /dev/null'' @ [NL] @ str ''+++ b/'' @ replicate 99980 97 @ truncation_marker"
    using len by (simp only: tk if_True append_assoc)
qed

lemma concat_map_filter_empty:
  "(\<And>x. x \<in> set xs \<Longrightarrow> \<not> P x \<Longrightarrow> f x = []) \<Longrightarrow>
     concat (map f (filter P xs)) = concat (map f xs)"
  by (induction xs) auto

text \<open>
  C10. In \<open>generate_diff_content\<close> of analyzer.py a content with a newline or a tab is
  never printable, so the blob is the one of the mapping restricted to the files whose
  content is a single line without tab or NUL and is printable: every file that spans
  more than one line is left out.
\<close>

theorem multi_line_files_omitted:
  "generate_diff_content_analyzer up repository_files =
     generate_diff_content_analyzer up
       (filter (\<lambda>(path, content). length (split_chr NL content) = 1 \<and> 9 \<notin> set content
                  \<and> 0 \<notin> set content \<and> isprintable up content) repository_files)"
proof -
  let ?P = "\<lambda>(path, content). length (split_chr NL content) = 1 \<and> 9 \<notin> set content
                  \<and> 0 \<notin> set content \<and> isprintable up content"
  let ?f = "\<lambda>(path, content).
                   if 0 \<in> set content \<or> \<not> isprintable up content then []
                   else file_diff_text path
                          (if 10000 < length content
                           then take 10000 content @ truncation_marker
                           else content)"
  have skip: "?f x = []" if "\<not> ?P x" for x
  proof -
    obtain p c where x: "x = (p, c)" by (cases x)
    from that x have "length (split_chr NL c) \<noteq> 1 \<or> 9 \<in> set c \<or> 0 \<in> set c \<or> \<not> isprintable up c"
      by auto
    moreover have "\<not> isprintable up c" if "length (split_chr NL c) \<noteq> 1"
    proof -
      from that have "count_list c NL \<noteq> 0" by (simp add: length_split_chr)
      then have "NL \<in> set c" by (simp add: count_list_0_iff)
      then show ?thesis by (rule not_printable_control) simp
    qed
    moreover have "\<not> isprintable up c" if "9 \<in> set c"
      using that by (rule not_printable_control) simp
    ultimately show ?thesis using x by auto
  qed
  have "concat (map ?f (filter ?P repository_files)) = concat (map ?f repository_files)"
    by (rule concat_map_filter_empty) (rule skip)
  then have "diff_loop_analyzer up (filter ?P repository_files) []
               = diff_loop_analyzer up repository_files []"
    by (simp only: diff_loop_analyzer_acc append_Nil)
  then show ?thesis
    by (simp only: generate_diff_content_analyzer_loop)
qed

theorem multi_line_files_omitted_witness:
  "generate_diff_content_analyzer (\<lambda>c. True)
     [(str ''a.py'', str ''x = 1'' @ [NL] @ str ''y = 2''), (str ''b.py'', str ''z = 3'')] =
   str ''--- /dev/null'' @ [NL] @ str ''+++ b/b.py'' @ [NL] @ str ''@@ -0,0 +1,1 @@'' @ [NL]
     @ str ''+z = 3'' @ [NL] @ [NL]"
  using multi_line_files_omitted [of "\<lambda>c. True"
     "[(str ''a.py'', str ''x = 1'' @ [NL] @ str ''y = 2''), (str ''b.py'', str ''z = 3'')]"]
  by (simp add: str_def isprintable_def generate_diff_content_analyzer_def Let_def
        str_of_nat.simps)

section \<open>The dump parser of analyzer.py on a section without a delimiter\<close>

text \<open>
  C6. The claim is that the dump parser never fails on malformed content.
  \<open>parse_repository_file\<close> of analyzer.py raises \<open>IndexError\<close> on the text
  \<open>FILE: a.py\nprint(1)\<close>: it has no delimiter, so its only section contains \<open>FILE: \<close>
  and is the last one.
\<close>

theorem parse_repository_file_analyzer_index_error:
  "parse_repository_file_analyzer (Some (str ''FILE: a.py'' @ [NL] @ str ''print(1)'')) = Inl IndexError"
proof -
  let ?c = "str ''FILE: a.py'' @ [NL] @ str ''print(1)''"
  have "\<not> set file_delimiter \<subseteq> set ?c"
    by (simp add: file_delimiter_def str_def)
  then have "\<not> contains ?c file_delimiter"
    using contains_set by blast
  then have 1: "split_str file_delimiter ?c = [?c]"
    by (rule split_str_no_sep)
  have 2: "skip_directory_structure ?c = ?c"
    by (simp add: skip_directory_structure_def startswith_def str_def)
  have 3: "contains ?c (str ''FILE: '')"
    by (simp add: str_def startswith_def)
  have 4: "?c \<noteq> []" by (simp add: str_def)
  show ?thesis
    unfolding parse_repository_file_analyzer_def using 1 2 3 4
    by (simp add: Let_def)
qed

section \<open>Round trip through the canonical format\<close>

lemma universal_newlines_id: "CR \<notin> set s \<Longrightarrow> universal_newlines s = s"
  by (induction s rule: universal_newlines.induct) auto

lemma set_join: "set (join sep xs) \<subseteq> set sep \<union> \<Union> (set ` set xs)"
  by (induction sep xs rule: join.induct) auto

text \<open>
  C7, as claimed, fails: the parser strips every content, so the dump with the file
  \<open>a.py\<close> of content \<open>print(1)\n\<close> comes back with the content \<open>print(1)\<close>.
\<close>

theorem round_trip_counterexample:
  "parse_repository_file_parser (spec_serialize [(str ''a.py'', str ''print(1)'' @ [NL])])
     = [(str ''a.py'', str ''print(1)'')]
   \<and> map_of [(str ''a.py'', str ''print(1)'')] (str ''a.py'')
       \<noteq> map_of [(str ''a.py'', str ''print(1)'' @ [NL])] (str ''a.py'')"
proof -
  let ?t = "str ''FILE: a.py'' @ [NL] @ str ''print(1)'' @ [NL]"
  have t: "spec_serialize [(str ''a.py'', str ''print(1)'' @ [NL])] = ?t"
    by (simp add: spec_serialize_def str_def)
  have "\<not> set file_delimiter \<subseteq> set ?t"
    by (simp add: file_delimiter_def str_def)
  then have "\<not> contains ?t file_delimiter"
    using contains_set by blast
  then have 1: "split_str file_delimiter ?t = [?t]"
    by (rule split_str_no_sep)
  have 2: "contains ?t (str ''FILE: '')"
    by (simp add: str_def startswith_def)
  have 0: "universal_newlines ?t = ?t"
    by (rule universal_newlines_id) (simp add: str_def)
  have 3: "process_sections_parser [?t] [] = [(str ''a.py'', str ''print(1)'')]"
    by (simp add: search_def start_state_def file_rx_def lit_def str_def advance_def dot_def
          match_group_def strip_def isspace_def)
  show ?thesis
    unfolding t parse_repository_file_parser_def Let_def 0 1
    using 2 3 by (simp add: str_def)
qed

text \<open>A carriage return in a content does not come back either: it is read as a newline.\<close>

lemma carriage_return_lost:
  "parse_repository_file_parser (spec_serialize [(str ''a.py'', str ''a'' @ [CR, NL] @ str ''b'')])
     = [(str ''a.py'', str ''a'' @ [NL] @ str ''b'')]"
proof -
  let ?t = "str ''FILE: a.py'' @ [NL] @ str ''a'' @ [NL] @ str ''b''"
  have t: "universal_newlines
             (spec_serialize [(str ''a.py'', str ''a'' @ [CR, NL] @ str ''b'')]) = ?t"
    by (simp add: spec_serialize_def str_def)
  have "\<not> set file_delimiter \<subseteq> set ?t"
    by (simp add: file_delimiter_def str_def)
  then have "\<not> contains ?t file_delimiter"
    using contains_set by blast
  then have 1: "split_str file_delimiter ?t = [?t]"
    by (rule split_str_no_sep)
  have 2: "contains ?t (str ''FILE: '')"
    by (simp add: str_def startswith_def)
  have 3: "process_sections_parser [?t] [] = [(str ''a.py'', str ''a'' @ [NL] @ str ''b'')]"
    by (simp add: search_def start_state_def file_rx_def lit_def str_def advance_def dot_def
          match_group_def strip_def isspace_def)
  show ?thesis
    unfolding parse_repository_file_parser_def Let_def t 1
    using 2 3 by (simp add: str_def)
qed

lemma split_str_piece:
  assumes "sep \<noteq> []" and "a \<noteq> []" and "last a \<notin> set sep" and "\<not> contains a sep"
  shows "split_str sep (a @ sep @ b) = a # split_str sep b"
  using assms(2-4)
proof (induction a)
  case Nil
  then show ?case by simp
next
  case (Cons x xs)
  have ns: "\<not> startswith ((x # xs) @ sep @ b) sep"
    using Cons.prems by (rule not_startswith_piece)
  have here: "split_str sep (sep @ b) = [] # split_str sep b"
    using assms(1) by (subst split_str.simps) (simp add: startswith_def)
  show ?case
  proof (cases "xs = []")
    case True
    then show ?thesis
      using ns assms(1) here by (subst split_str.simps) simp
  next
    case False
    then have "last xs \<notin> set sep" "\<not> contains xs sep"
      using Cons.prems by auto
    then have "split_str sep (xs @ sep @ b) = xs # split_str sep b"
      using Cons.IH False by simp
    then show ?thesis
      using ns assms(1) by (subst split_str.simps) simp
  qed
qed

lemma dict_set_fresh: "k \<notin> fst ` set d \<Longrightarrow> dict_set d k v = d @ [(k, v)]"
  by (induction d) auto

lemma length_FILE: "length (str ''FILE: '') = 6"
  by (simp add: str_def)

lemma drop_exact: "n = length xs \<Longrightarrow> drop n (xs @ r) = r"
  by simp

lemma search_section:
  assumes "pre = [] \<or> pre = [NL]" and "p \<noteq> []" and "NL \<notin> set p"
  shows "\<exists>m. search file_rx (pre @ str ''FILE: '' @ p @ NL # r) = Some m
            \<and> match_group m 1 = p
            \<and> drop (pos m) (pre @ str ''FILE: '' @ p @ NL # r) = r"
  using assms(1)
proof
  assume pre: "pre = []"
  let ?s = "str ''FILE: '' @ p @ NL # r"
  obtain m where m: "rx_match file_rx (start_state ?s) Some = Some m" "match_group m 1 = p"
      "pos m = pos (start_state ?s) + 7 + length p"
    using match_file_rx [of "start_state ?s" p r] assms(2,3)
    by (auto simp: start_state_def)
  have "search file_rx ?s = Some m"
    unfolding search_def using m(1) by (rule search_from_hit)
  moreover have "drop (pos m) ?s = r"
    using m(3) drop_exact [of "pos m" "str ''FILE: '' @ p @ [NL]" r]
    by (simp add: start_state_def length_FILE)
  ultimately show ?thesis using m(2) pre by auto
next
  assume pre: "pre = [NL]"
  let ?s = "str ''FILE: '' @ p @ NL # r"
  let ?st = "advance 1 (start_state (NL # ?s))"
  have rst: "rest ?st = ?s" by (simp add: start_state_def)
  obtain m where m: "rx_match file_rx ?st Some = Some m" "match_group m 1 = p"
      "pos m = pos ?st + 7 + length p"
    using match_file_rx [of ?st p r] assms(2,3) rst by auto
  have miss: "rx_match file_rx (start_state (NL # ?s)) Some = None"
    by (simp add: file_rx_def rx_match_lit start_state_def startswith_def str_def
          del: rx_match.simps(5,6))
  have "search file_rx (NL # ?s) = search_from file_rx ?st (length ?s)"
    unfolding search_def using miss by simp
  also have "\<dots> = Some m" using m(1) by (rule search_from_hit)
  finally have "search file_rx (NL # ?s) = Some m" .
  moreover have "drop (pos m) (NL # ?s) = r"
    using m(3) drop_exact [of "pos m" "NL # str ''FILE: '' @ p @ [NL]" r]
    by (simp add: start_state_def length_FILE)
  ultimately show ?thesis using m(2) pre by auto
qed

lemma delimiter_facts:
  "file_delimiter \<noteq> []" "set file_delimiter = {61}" "length file_delimiter = 48"
  by (simp_all add: file_delimiter_def)

lemma section_no_delimiter:
  assumes "pre = [] \<or> pre = [NL]" and "post = [] \<or> post = [NL]"
    and "valid_path p" and "valid_content c"
  shows "\<not> contains (pre @ str ''FILE: '' @ p @ [NL] @ c @ post) file_delimiter"
proof
  assume a: "contains (pre @ str ''FILE: '' @ p @ [NL] @ c @ post) file_delimiter"
  have "pre @ str ''FILE: '' @ p @ [NL] @ c @ post = (pre @ str ''FILE: '' @ p) @ NL # (c @ post)"
    by simp
  with a have "contains (pre @ str ''FILE: '' @ p) file_delimiter \<or> contains (c @ post) file_delimiter"
    using contains_split_at [of "pre @ str ''FILE: '' @ p" NL "c @ post" file_delimiter]
    by (simp add: delimiter_facts)
  then show False
  proof
    assume "contains (c @ post) file_delimiter"
    moreover have "\<not> contains c file_delimiter" using assms(4) by (simp add: valid_content_def)
    ultimately show False
      using assms(2) contains_split_at [of c NL "[]" file_delimiter]
      by (auto simp: delimiter_facts)
  next
    assume b: "contains (pre @ str ''FILE: '' @ p) file_delimiter"
    have "pre @ str ''FILE: '' @ p = (pre @ str ''FILE:'') @ 32 # p"
      by (simp add: str_def)
    with b have "contains (pre @ str ''FILE:'') file_delimiter \<or> contains p file_delimiter"
      using contains_split_at [of "pre @ str ''FILE:''" 32 p file_delimiter]
      by (simp add: delimiter_facts)
    moreover have "\<not> contains p file_delimiter" using assms(3) by (simp add: valid_path_def)
    moreover have "\<not> contains (pre @ str ''FILE:'') file_delimiter"
    proof
      assume "contains (pre @ str ''FILE:'') file_delimiter"
      then have "set file_delimiter \<subseteq> set (pre @ str ''FILE:'')" by (rule contains_set)
      then show False using assms(1) by (auto simp: delimiter_facts str_def)
    qed
    ultimately show False by simp
  qed
qed

lemma section_has_file:
  "pre = [] \<or> pre = [NL] \<Longrightarrow> contains (pre @ str ''FILE: '' @ rest') (str ''FILE: '')"
  by (auto simp: startswith_def str_def)

lemma process_section_step:
  assumes "pre = [] \<or> pre = [NL]" and "post = [] \<or> post = [NL]"
    and "valid_path p" and "valid_content c" and "p \<notin> fst ` set acc"
  shows "process_sections_parser ((pre @ str ''FILE: '' @ p @ [NL] @ c @ post) # secs) acc
           = process_sections_parser secs (acc @ [(p, c)])"
proof -
  let ?sec = "pre @ str ''FILE: '' @ p @ NL # (c @ post)"
  have vp: "p \<noteq> []" "NL \<notin> set p" "strip p = p"
    using assms(3) by (simp_all add: valid_path_def)
  have vc: "strip c = c" using assms(4) by (simp add: valid_content_def)
  obtain m where m: "search file_rx ?sec = Some m" "match_group m 1 = p"
      "drop (pos m) ?sec = c @ post"
    using search_section [OF assms(1) vp(1,2), of "c @ post"] by blast
  have "strip (c @ post) = c"
    using assms(2) vc by (auto simp: strip_append_NL)
  then show ?thesis
    using m vp(3) assms(5) by (simp add: Let_def dict_set_fresh)
qed

lemma serialize_Cons:
  "spec_serialize ((p, c) # d # ds) =
     (str ''FILE: '' @ p @ [NL] @ c @ [NL]) @ file_delimiter @ ([NL] @ spec_serialize (d # ds))"
  by (simp add: spec_serialize_def)

lemma serialize_single: "spec_serialize [(p, c)] = str ''FILE: '' @ p @ [NL] @ c"
  by (simp add: spec_serialize_def)

lemma process_round_trip:
  assumes "valid_dump D" and "D \<noteq> []" and "pre = [] \<or> pre = [NL]"
    and "fst ` set D \<inter> fst ` set acc = {}"
  shows "process_sections_parser
           (filter (\<lambda>section. contains section (str ''FILE: ''))
              (split_str file_delimiter (pre @ spec_serialize D))) acc = acc @ D"
  using assms
proof (induction D arbitrary: pre acc)
  case Nil
  then show ?case by simp
next
  case (Cons pc ds)
  obtain p c where pc: "pc = (p, c)" by (cases pc)
  have v: "valid_path p" "valid_content c"
    using Cons.prems(1) by (simp_all add: valid_dump_def pc)
  have fresh: "p \<notin> fst ` set acc"
    using Cons.prems(4) by (auto simp: pc)
  show ?case
  proof (cases ds)
    case Nil
    let ?sec = "pre @ str ''FILE: '' @ p @ [NL] @ c @ []"
    have "\<not> contains ?sec file_delimiter"
      using Cons.prems(3) v by (intro section_no_delimiter) simp_all
    then have "split_str file_delimiter ?sec = [?sec]"
      by (rule split_str_no_sep)
    moreover have "contains ?sec (str ''FILE: '')"
      using section_has_file [OF Cons.prems(3)] by simp
    moreover have "process_sections_parser (?sec # []) acc
        = process_sections_parser [] (acc @ [(p, c)])"
      using Cons.prems(3) v fresh by (intro process_section_step) simp_all
    ultimately show ?thesis
      by (simp add: pc Nil serialize_single)
  next
    case (Cons d ds')
    let ?sec = "pre @ str ''FILE: '' @ p @ [NL] @ c @ [NL]"
    have nd: "\<not> contains ?sec file_delimiter"
      using Cons.prems(3) v by (intro section_no_delimiter) simp_all
    have whole: "pre @ spec_serialize (pc # ds)
        = ?sec @ file_delimiter @ ([NL] @ spec_serialize ds)"
      by (simp add: pc Cons serialize_Cons)
    have "split_str file_delimiter (?sec @ file_delimiter @ ([NL] @ spec_serialize ds))
        = ?sec # split_str file_delimiter ([NL] @ spec_serialize ds)"
      using nd by (intro split_str_piece) (simp_all add: delimiter_facts)
    moreover have "contains ?sec (str ''FILE: '')"
      using section_has_file [OF Cons.prems(3)] by simp
    moreover have "process_sections_parser (?sec # secs) acc
        = process_sections_parser secs (acc @ [(p, c)])" for secs
      using Cons.prems(3) v fresh by (intro process_section_step) simp_all
    moreover have "process_sections_parser
           (filter (\<lambda>section. contains section (str ''FILE: ''))
              (split_str file_delimiter ([NL] @ spec_serialize ds))) (acc @ [(p, c)])
        = (acc @ [(p, c)]) @ ds"
    proof (rule Cons.IH)
      show "valid_dump ds" using Cons.prems(1) by (simp add: valid_dump_def)
      show "ds \<noteq> []" using Cons by simp
      show "[NL] = [] \<or> [NL] = [NL]" by simp
      show "fst ` set ds \<inter> fst ` set (acc @ [(p, c)]) = {}"
        using Cons.prems(1,4) by (auto simp: valid_dump_def pc)
    qed
    ultimately show ?thesis
      unfolding whole by (simp add: pc)
  qed
qed

lemma serialize_no_CR:
  assumes "valid_dump dump"
  shows "CR \<notin> set (spec_serialize dump)"
proof
  assume "CR \<in> set (spec_serialize dump)"
  then have "CR \<in> set ([NL] @ file_delimiter @ [NL])
      \<union> \<Union> (set ` set (map (\<lambda>(path, content). str ''FILE: '' @ path @ [NL] @ content) dump))"
    unfolding spec_serialize_def using set_join by blast
  moreover have "CR \<notin> set ([NL] @ file_delimiter @ [NL])"
    by (simp add: file_delimiter_def)
  ultimately obtain p c where pc: "(p, c) \<in> set dump"
      and "CR \<in> set (str ''FILE: '' @ p @ [NL] @ c)"
    by auto
  then have "CR \<in> set p \<or> CR \<in> set c" by (auto simp: str_def)
  moreover have "valid_path p \<and> valid_content c"
    using assms pc by (auto simp: valid_dump_def list_all_iff)
  ultimately show False by (auto simp: valid_path_def valid_content_def)
qed

text \<open>
  C7, amended. For every dump whose paths are distinct, non-empty, without newline or
  carriage return, without white space at either end and without the delimiter, and whose
  contents are without carriage return, without white space at either end and without
  the delimiter, parsing the file that holds the serialized dump gives the dump back (in
  the same order, hence also as a mapping).
\<close>

theorem round_trip_valid_dump:
  "valid_dump dump \<Longrightarrow> parse_repository_file_parser (spec_serialize dump) = dump"
proof (cases "dump = []")
  case True
  have "split_str file_delimiter [] = [[]]"
    by (simp add: split_str.simps)
  then show ?thesis
    using True by (simp add: parse_repository_file_parser_def spec_serialize_def str_def)
next
  case False
  assume v: "valid_dump dump"
  have "universal_newlines (spec_serialize dump) = spec_serialize dump"
    using serialize_no_CR [OF v] by (rule universal_newlines_id)
  then show ?thesis
    using process_round_trip [of dump "[]" "[]"] False v
    by (simp add: parse_repository_file_parser_def)
qed

lemma short_no_delimiter: "length s < 48 \<Longrightarrow> \<not> contains s file_delimiter"
  using contains_length [of s file_delimiter] by (auto simp: delimiter_facts)

lemma valid_path_short:
  "p \<noteq> [] \<Longrightarrow> NL \<notin> set p \<Longrightarrow> CR \<notin> set p \<Longrightarrow> strip p = p \<Longrightarrow> length p < 48
     \<Longrightarrow> valid_path p"
  by (simp add: valid_path_def short_no_delimiter)

lemma valid_content_short:
  "CR \<notin> set c \<Longrightarrow> strip c = c \<Longrightarrow> length c < 48 \<Longrightarrow> valid_content c"
  by (simp add: valid_content_def short_no_delimiter)

lemma valid_two_files: "valid_dump two_files"
proof -
  have "valid_path (str ''a.py'')"
    by (rule valid_path_short) (simp_all add: str_def strip_def isspace_def)
  moreover have "valid_path (str ''src/b.py'')"
    by (rule valid_path_short) (simp_all add: str_def strip_def isspace_def)
  moreover have "valid_content (str ''print(1)'')"
    by (rule valid_content_short) (simp_all add: str_def strip_def isspace_def)
  moreover have "valid_content (str ''x = 2'' @ [NL] @ str ''y = 3'')"
    by (rule valid_content_short) (simp_all add: str_def strip_def isspace_def)
  moreover have "str ''a.py'' \<noteq> str ''src/b.py''"
    by (simp add: str_def)
  ultimately show ?thesis
    by (simp add: valid_dump_def two_files_def)
qed

theorem round_trip_valid_dump_witness:
  "valid_dump two_files \<and> parse_repository_file_parser (spec_serialize two_files) = two_files"
  using round_trip_valid_dump [OF valid_two_files] valid_two_files by simp

section \<open>The normalizer on an error reply\<close>

text \<open>
  C5. When the reply carries an error, \<open>_parse_analysis_response\<close> returns, whatever the
  alternatives and the library are, the result with the four lists empty, no score, and
  the error (behind the prefix \<open>API Error: \<close>) as \<open>error\<close> and as \<open>raw_response\<close>.
\<close>

theorem error_reply_short_circuits:
  "resp_error response = Some e \<Longrightarrow>
   parse_analysis_response lib response =
     Inr \<lparr>quality_issues = [], good_practices = [], patterns = [], anti_patterns = [],
          overall_score = None,
          raw_response = str ''API Error: '' @ e,
          error = Some (str ''API Error: '' @ e)\<rparr>"
  by (simp add: parse_analysis_response_def empty_analysis_def)

theorem error_reply_short_circuits_witness:
  "parse_analysis_response ascii_lib
     \<lparr>resp_error = Some (str ''Connection error: timed out''),
      resp_alternatives = [ObjText (str ''{\"overall_score\": 15}'')]\<rparr> =
     Inr \<lparr>quality_issues = [], good_practices = [], patterns = [], anti_patterns = [],
          overall_score = None,
          raw_response = str ''API Error: Connection error: timed out'',
          error = Some (str ''API Error: Connection error: timed out'')\<rparr>"
  using error_reply_short_circuits
    [of "\<lparr>resp_error = Some (str ''Connection error: timed out''),
          resp_alternatives = [ObjText (str ''{\"overall_score\": 15}'')]\<rparr>"
        "str ''Connection error: timed out''" ascii_lib]
  by (simp add: str_def)

section \<open>The normalizer on the reply of scenario 2\<close>

lemma round_float_ascii [simp]: "round_float ascii_lib x = x"
  by (simp add: ascii_lib_def)

lemma clean_scenario: "clean_message scenario_reply = scenario_json"
  by (simp add: clean_message_def scenario_reply_def scenario_json_def strip_def isspace_def
        str_def startswith_def endswith_def)

lemma loads_scenario:
  "py_json_loads scenario_json =
     Inr (JObj [(str ''quality_issues'', JList [JStr (str ''X'')]),
                (str ''good_practices'', JList []),
                (str ''patterns'', JList []),
                (str ''anti_patterns'', JList []),
                (str ''overall_score'', JFloat (PyFloat 7.5))])"
  by (simp add: py_json_loads_def scenario_json_def str_def json_skip_def startswith_def
        cons_result_def string_token_def scan_number_def ascii_digit_def digits_value_def
        to_float_def float_limit_def)

lemma parsed_scenario:
  "parsed_json ascii_lib scenario_reply =
     Inr (JObj [(str ''quality_issues'', JList [JStr (str ''X'')]),
                (str ''good_practices'', JList []),
                (str ''patterns'', JList []),
                (str ''anti_patterns'', JList []),
                (str ''overall_score'', JFloat (PyFloat 7.5))])"
proof -
  have "startswith scenario_json (str ''{'') \<and> endswith scenario_json (str ''}'')"
    by (simp add: scenario_json_def str_def startswith_def endswith_def)
  then show ?thesis
    by (simp add: parsed_json_def direct_json_def try_loads_def clean_scenario loads_scenario
          ascii_lib_def)
qed

lemma normalize_scenario:
  "parse_analysis_response ascii_lib (reply scenario_reply) =
     Inr \<lparr>quality_issues = [JStr (str ''X'')], good_practices = [], patterns = [],
          anti_patterns = [], overall_score = Some (PyFloat 7.5),
          raw_response = scenario_reply, error = None\<rparr>"
  by (simp add: parse_analysis_response_def reply_def parsed_scenario score_field_def
        list_field_def empty_analysis_def)
     (simp add: str_def)

section \<open>The score is not clamped\<close>

text \<open>The interval of the data model: a finite score between 0 and 10.\<close>

definition score_in_range :: "pyfloat \<Rightarrow> bool" where
  "score_in_range x = (case x of PyFloat v \<Rightarrow> 0 \<le> v \<and> v \<le> 10 | _ \<Rightarrow> False)"

lemma loads_score_15:
  "py_json_loads (str ''{\"overall_score\": 15}'') = Inr (JObj [(str ''overall_score'', JInt 15)])"
  by (simp add: py_json_loads_def str_def json_skip_def startswith_def cons_result_def
        string_token_def scan_number_def ascii_digit_def digits_value_def)

lemma clean_score_15:
  "clean_message (str ''{\"overall_score\": 15}'') = str ''{\"overall_score\": 15}''"
  by (simp add: clean_message_def strip_def isspace_def str_def startswith_def)

lemma direct_score_15:
  "direct_json ascii_lib (str ''{\"overall_score\": 15}'')
     = Inr (JObj [(str ''overall_score'', JInt 15)])"
  unfolding direct_json_def clean_score_15 Let_def
  by (simp add: try_loads_def loads_score_15 ascii_lib_def)
     (simp add: str_def startswith_def endswith_def)

lemma float_limit_above_15: "\<not> float_limit \<le> 15"
  by (simp add: float_limit_def)

text \<open>
  C2, as claimed, fails: on the reply \<open>{"overall_score": 15}\<close> the result has the score
  15.0, which is not in [0,10].
\<close>

theorem score_not_clamped_counterexample:
  "parse_analysis_response ascii_lib (reply (str ''{\"overall_score\": 15}'')) =
     Inr \<lparr>quality_issues = [], good_practices = [], patterns = [], anti_patterns = [],
          overall_score = Some (PyFloat 15), raw_response = str ''{\"overall_score\": 15}'',
          error = None\<rparr>
   \<and> \<not> score_in_range (PyFloat 15)"
  by (simp add: parse_analysis_response_def reply_def parsed_json_def direct_score_15
        score_field_def list_field_def empty_analysis_def score_in_range_def
        float_limit_above_15)

lemma regex_fallback_score:
  "overall_score (regex_fallback lib message (empty_analysis message None)) =
     (case search (score_rx lib) message of
        None \<Rightarrow> None
      | Some m \<Rightarrow> float_of_str lib (match_group m 1))"
  by (simp add: regex_fallback_def empty_analysis_def Let_def split: option.splits)

lemma score_field_value:
  "score_field lib d = Inr score \<Longrightarrow>
     score = (case map_of d (str ''overall_score'') of
                None \<Rightarrow> None
              | Some v \<Rightarrow> (case py_float lib v of Inr x \<Rightarrow> Some x | Inl e \<Rightarrow> None))"
  by (auto simp: score_field_def
        split: option.splits json.splits sum.splits py_exn.splits if_splits)

lemma block_mixed:
  "map_option (\<lambda>m. match_group m 1) (search json_block_rx mixed_reply)
     = Some (str ''{\"overall_score\": 2}'')"
  by (simp add: search_def start_state_def json_block_rx_def lit_def str_def mixed_reply_def
        advance_def isspace_def any_char_def match_group_def)

lemma loads_score_2:
  "py_json_loads (str ''{\"overall_score\": 2}'') = Inr (JObj [(str ''overall_score'', JInt 2)])"
  by (simp add: py_json_loads_def str_def json_skip_def startswith_def cons_result_def
        string_token_def scan_number_def ascii_digit_def digits_value_def)

lemma direct_mixed: "direct_json ascii_lib mixed_reply = Inr JNull"
  by (simp add: direct_json_def clean_message_def strip_def isspace_def mixed_reply_def str_def
        startswith_def endswith_def)

lemma parsed_mixed:
  "parsed_json ascii_lib mixed_reply = Inr (JObj [(str ''overall_score'', JInt 2)])"
proof -
  obtain m where m: "search json_block_rx mixed_reply = Some m"
      "match_group m 1 = str ''{\"overall_score\": 2}''"
    using block_mixed by (cases "search json_block_rx mixed_reply") auto
  have "block_json ascii_lib mixed_reply = Inr (JObj [(str ''overall_score'', JInt 2)])"
    using m by (simp add: block_json_def try_loads_def loads_score_2 ascii_lib_def)
  then show ?thesis
    by (simp add: parsed_json_def direct_mixed)
qed

lemma float_limit_above_2: "\<not> float_limit \<le> 2"
  by (simp add: float_limit_def)

lemma normalize_mixed:
  "parse_analysis_response ascii_lib (reply mixed_reply) =
     Inr \<lparr>quality_issues = [], good_practices = [], patterns = [], anti_patterns = [],
          overall_score = Some (PyFloat 2), raw_response = mixed_reply, error = None\<rparr>"
  by (simp add: parse_analysis_response_def reply_def parsed_mixed score_field_def
        list_field_def empty_analysis_def float_limit_above_2)

lemma score_search_mixed:
  "map_option (\<lambda>m. match_group m 1) (search (score_rx lib) mixed_reply) = Some (str ''9'')"
  by (simp add: search_def start_state_def score_rx_def lit_i_def str_def mixed_reply_def
        advance_def ci_def lower_ascii_def opt_def isspace_def any_char_def digit_def
        ascii_digit_def match_group_def)

text \<open>
  C2, amended. For a reply without error and with a first alternative, on which the
  normalizer returns a result: both JSON tiers have returned without raising, and the
  score of the result is, unclamped, \<open>float()\<close> of what the model reported. When the
  tiers recovered a JSON object, it is \<open>float()\<close> of the value under \<open>"overall_score"\<close>
  of that object and of nothing else (no score when the key is absent, or when \<open>float\<close>
  rejects the value); only when they recovered no JSON object is it \<open>float()\<close> of the
  number that the pattern of the third tier matches in front of \<open>/10\<close> or \<open>out of 10\<close>
  (no score when the pattern does not match).
\<close>

theorem overall_score_is_reported_value:
  assumes "resp_error response = None"
    and "resp_alternatives response = first_alt # others"
    and "parse_analysis_response lib response = Inr a"
  shows "\<exists>parsed. parsed_json lib (alternative_message first_alt) = Inr parsed \<and>
     overall_score a =
       (case parsed of
          JObj d \<Rightarrow>
            (case map_of d (str ''overall_score'') of
               None \<Rightarrow> None
             | Some v \<Rightarrow> (case py_float lib v of Inr x \<Rightarrow> Some x | Inl e \<Rightarrow> None))
        | _ \<Rightarrow>
            (case search (score_rx lib) (alternative_message first_alt) of
               None \<Rightarrow> None
             | Some m \<Rightarrow> float_of_str lib (match_group m 1)))"
proof -
  let ?msg = "alternative_message first_alt"
  show ?thesis
  proof (cases "parsed_json lib ?msg")
    case (Inl e)
    with assms show ?thesis by (simp add: parse_analysis_response_def)
  next
    case (Inr v)
    show ?thesis
    proof (cases "\<exists>d. v = JObj d")
      case True
      then obtain d where d: "v = JObj d" by blast
      from assms Inr d obtain score where s: "score_field lib d = Inr score"
          and a: "overall_score a = score"
        by (auto simp: parse_analysis_response_def Let_def split: sum.splits)
      from score_field_value [OF s] a show ?thesis by (simp add: Inr d)
    next
      case False
      with assms Inr have "a = regex_fallback lib ?msg (empty_analysis ?msg None)"
        by (cases v) (auto simp: parse_analysis_response_def Let_def)
      then have "overall_score a = (case search (score_rx lib) ?msg of
          None \<Rightarrow> None | Some m \<Rightarrow> float_of_str lib (match_group m 1))"
        by (simp add: regex_fallback_score)
      with False show ?thesis by (cases v) (simp_all add: Inr)
    qed
  qed
qed

text \<open>
  On the reply with a fenced object of score 2 followed by a prose score of 9, the
  theorem gives the score 2.
\<close>

theorem overall_score_is_reported_value_witness:
  "\<exists>parsed. parsed_json ascii_lib mixed_reply = Inr parsed \<and>
     Some (PyFloat 2) =
       (case parsed of
          JObj d \<Rightarrow>
            (case map_of d (str ''overall_score'') of
               None \<Rightarrow> None
             | Some v \<Rightarrow> (case py_float ascii_lib v of Inr x \<Rightarrow> Some x | Inl e \<Rightarrow> None))
        | _ \<Rightarrow>
            (case search (score_rx ascii_lib) mixed_reply of
               None \<Rightarrow> None
             | Some m \<Rightarrow> float_of_str ascii_lib (match_group m 1)))"
  using overall_score_is_reported_value
          [of "reply mixed_reply" "ObjText mixed_reply" "[]" ascii_lib, OF _ _ normalize_mixed]
  unfolding alternative_message.simps by (simp add: reply_def)

section \<open>The JSON tier\<close>

text \<open>
  What the first tier returns when \<open>json.loads\<close> yields an object and the score does not
  raise, and the only exception the score can raise.
\<close>

lemma py_float_raises:
  "py_float lib v = Inl e \<Longrightarrow> e = OverflowError \<or> e = ValueError \<or> e = TypeError"
  by (cases v) (auto split: if_splits option.splits)

lemma score_field_raises: "score_field lib d = Inl e \<Longrightarrow> e = OverflowError"
  by (auto simp: score_field_def
        split: option.splits json.splits sum.splits py_exn.splits if_splits
        dest: py_float_raises)

lemma score_field_overflow:
  "score_field lib d = Inl e \<Longrightarrow>
     \<exists>n. map_of d (str ''overall_score'') = Some (JInt n) \<and> float_limit \<le> \<bar>n\<bar>"
  by (auto simp: score_field_def split: option.splits json.splits sum.splits py_exn.splits
        if_splits)

lemma direct_json_fields:
  assumes "resp_error response = None"
    and "resp_alternatives response = first_alt # others"
    and "direct_json lib (alternative_message first_alt) = Inr (JObj d)"
    and "score_field lib d = Inr score"
  shows "parse_analysis_response lib response =
     Inr \<lparr>quality_issues = list_field d (str ''quality_issues''),
          good_practices = list_field d (str ''good_practices''),
          patterns = list_field d (str ''patterns''),
          anti_patterns = list_field d (str ''anti_patterns''),
          overall_score = score,
          raw_response = alternative_message first_alt,
          error = None\<rparr>"
  using assms
  by (simp add: parse_analysis_response_def parsed_json_def empty_analysis_def Let_def)

subsection \<open>A score too large for a float\<close>

lemma foldl_digits_zeros:
  "foldl (\<lambda>n c. 10 * n + (c - 48)) (a::nat) (replicate k 48) = a * 10 ^ k"
  by (induction k arbitrary: a) simp_all

lemma digits_value_big: "digits_value big_int_text = 10 ^ 400"
  by (simp add: digits_value_def big_int_text_def foldl_digits_zeros)

lemma takeWhile_big: "takeWhile ascii_digit (big_int_text @ str ''}'') = big_int_text"
proof -
  have "\<forall>c\<in>set big_int_text. ascii_digit c"
    by (simp add: big_int_text_def ascii_digit_def)
  moreover have "\<not> ascii_digit 125" by (simp add: ascii_digit_def)
  ultimately show ?thesis
    by (simp add: str_def takeWhile_append2 del: set_replicate)
qed

lemma scan_number_big:
  "scan_number (big_int_text @ str ''}'') = Inr (JInt (10 ^ 400), str ''}'')"
proof -
  have 1: "\<not> startswith (big_int_text @ str ''}'') (str ''-'')"
    by (simp add: startswith_def big_int_text_def str_def)
  have 2: "\<not> startswith (big_int_text @ str ''}'') (str ''0'')"
    by (simp add: startswith_def big_int_text_def str_def)
  have 3: "big_int_text \<noteq> []" by (simp add: big_int_text_def)
  have 4: "\<not> 4300 < length big_int_text" by (simp add: big_int_text_def)
  show ?thesis
    unfolding scan_number_def Let_def
    by (simp add: 1 2 3 4 takeWhile_big digits_value_big) (simp add: str_def)
qed

lemma parse_value_digit:
  "49 \<le> c \<Longrightarrow> c \<le> 57 \<Longrightarrow> parse_value (Suc n) (c # cs) = scan_number (c # cs)"
  by (auto simp: startswith_def str_def)

lemma parse_value_big_int:
  "parse_value (Suc n) (big_int_text @ str ''}'') = Inr (JInt (10 ^ 400), str ''}'')"
proof -
  have "parse_value (Suc n) (49 # (replicate 400 48 @ str ''}''))
          = scan_number (49 # (replicate 400 48 @ str ''}''))"
    by (rule parse_value_digit) simp_all
  then have "parse_value (Suc n) (big_int_text @ str ''}'') = scan_number (big_int_text @ str ''}'')"
    by (simp add: big_int_text_def)
  then show ?thesis by (simp only: scan_number_big)
qed

lemma scan_key: "scan_string (str ''overall_score\"'' @ r) = Some (str ''overall_score'', r)"
  by (simp add: str_def cons_result_def)

lemma parse_members_big:
  "parse_members (Suc (Suc n)) (str ''\"overall_score\": '' @ big_int_text @ str ''}'') []
     = Inr (JObj [(str ''overall_score'', JInt (10 ^ 400))], [])"
proof -
  have a: "str ''\"overall_score\": '' @ big_int_text @ str ''}''
        = 34 # (str ''overall_score\"'' @ (58 # 32 # (big_int_text @ str ''}'')))"
    by (simp add: str_def)
  have b: "json_skip (58 # 32 # (big_int_text @ str ''}'')) = 58 # 32 # (big_int_text @ str ''}'')"
    by (simp add: json_skip_def)
  have c: "json_skip (32 # (big_int_text @ str ''}'')) = big_int_text @ str ''}''"
    by (simp add: json_skip_def big_int_text_def)
  have d: "json_skip (str ''}'') = [125]"
    by (simp add: json_skip_def str_def)
  show ?thesis
    unfolding a
    by (simp add: scan_key b c d parse_value_big_int del: parse_value.simps(2))
qed

lemma parse_value_big:
  "parse_value (Suc (Suc (Suc n))) big_score_reply
     = Inr (JObj [(str ''overall_score'', JInt (10 ^ 400))], [])"
proof -
  have a: "big_score_reply = 123 # (str ''\"overall_score\": '' @ big_int_text @ str ''}'')"
    by (simp add: big_score_reply_def str_def)
  have b: "json_skip (str ''\"overall_score\": '' @ big_int_text @ str ''}'')
             = str ''\"overall_score\": '' @ big_int_text @ str ''}''"
    by (simp add: json_skip_def str_def)
  have c: "\<not> startswith (str ''\"overall_score\": '' @ big_int_text @ str ''}'') (str ''}'')"
    by (simp add: startswith_def str_def)
  show ?thesis
    unfolding a
    by (simp add: b c parse_members_big del: parse_members.simps(2))
qed

lemma loads_big:
  "py_json_loads big_score_reply = Inr (JObj [(str ''overall_score'', JInt (10 ^ 400))])"
proof -
  have "length big_score_reply = Suc (Suc 418)"
    by (simp add: big_score_reply_def big_int_text_def str_def)
  then have 1: "parse_value (Suc (length big_score_reply)) big_score_reply
      = Inr (JObj [(str ''overall_score'', JInt (10 ^ 400))], [])"
    by (simp only: parse_value_big)
  have 2: "json_skip big_score_reply = big_score_reply"
    by (simp add: json_skip_def big_score_reply_def str_def)
  have 3: "json_skip [] = []"
    by (simp add: json_skip_def)
  show ?thesis
    unfolding py_json_loads_def 2 1 by (simp add: 3)
qed

lemma clean_big: "clean_message big_score_reply = big_score_reply"
  by (simp add: clean_message_def strip_def isspace_def big_score_reply_def big_int_text_def
        str_def startswith_def)

lemma direct_big:
  "direct_json ascii_lib big_score_reply = Inr (JObj [(str ''overall_score'', JInt (10 ^ 400))])"
proof -
  have "startswith big_score_reply (str ''{'')"
    by (simp add: startswith_def big_score_reply_def str_def)
  moreover have "endswith big_score_reply (str ''}'')"
    by (simp add: endswith_def big_score_reply_def big_int_text_def str_def)
  ultimately show ?thesis
    by (simp add: direct_json_def try_loads_def clean_big loads_big ascii_lib_def)
qed

lemma float_limit_big: "float_limit \<le> \<bar>10 ^ 400\<bar>"
  by (simp add: float_limit_def)

text \<open>
  C1. The claim is that a reply that is a JSON object gives a result with the lists of
  the object and with its score coerced to a float, or null when it cannot be converted.
  The lists and every score that \<open>float\<close> converts or rejects with \<open>ValueError\<close> or
  \<open>TypeError\<close> are as claimed (\<open>direct_json_fields\<close>); but on an integer score too large
  for a float, here 1 followed by 400 zeros, \<open>float\<close> raises \<open>OverflowError\<close>, which
  \<open>except (ValueError, TypeError)\<close> does not catch: no result is returned.
\<close>

theorem huge_score_raises_overflow:
  "parse_analysis_response ascii_lib (reply big_score_reply) = Inl OverflowError"
  using float_limit_big
  by (simp add: parse_analysis_response_def reply_def parsed_json_def direct_big
        score_field_def del: power_numeral)

section \<open>Replies without JSON and without sections\<close>

lemma regex_fallback_raw:
  "raw_response (regex_fallback lib message a) = raw_response a"
  by (simp add: regex_fallback_def Let_def split: option.splits)

lemma regex_fallback_nothing:
  "search quality_rx message = None \<Longrightarrow> search practices_rx message = None \<Longrightarrow>
   search (score_rx lib) message = None \<Longrightarrow> regex_fallback lib message a = a"
  by (simp add: regex_fallback_def)

text \<open>
  When both JSON tiers return without an object and none of the three section patterns
  matches, the result has the four lists empty, no score, no error, and the message as
  \<open>raw_response\<close>; and every result returned for a reply without error has the message
  as \<open>raw_response\<close>.
\<close>

lemma ungrounded_reply_returns:
  assumes "resp_error response = None"
    and "resp_alternatives response = first_alt # others"
  shows "(\<exists>v. parsed_json lib (alternative_message first_alt) = Inr v \<and> (\<nexists>d. v = JObj d))
         \<Longrightarrow> search quality_rx (alternative_message first_alt) = None
         \<Longrightarrow> search practices_rx (alternative_message first_alt) = None
         \<Longrightarrow> search (score_rx lib) (alternative_message first_alt) = None
         \<Longrightarrow> parse_analysis_response lib response =
              Inr \<lparr>quality_issues = [], good_practices = [], patterns = [],
                   anti_patterns = [], overall_score = None,
                   raw_response = alternative_message first_alt, error = None\<rparr>"
    and "parse_analysis_response lib response = Inr a
         \<Longrightarrow> raw_response a = alternative_message first_alt"
proof -
  let ?msg = "alternative_message first_alt"
  assume "\<exists>v. parsed_json lib ?msg = Inr v \<and> (\<nexists>d. v = JObj d)"
    and s: "search quality_rx ?msg = None" "search practices_rx ?msg = None"
      "search (score_rx lib) ?msg = None"
  then obtain v where v: "parsed_json lib ?msg = Inr v" "\<nexists>d. v = JObj d" by blast
  have "regex_fallback lib ?msg (empty_analysis ?msg None) = empty_analysis ?msg None"
    using s by (rule regex_fallback_nothing)
  with v assms show "parse_analysis_response lib response =
              Inr \<lparr>quality_issues = [], good_practices = [], patterns = [],
                   anti_patterns = [], overall_score = None,
                   raw_response = ?msg, error = None\<rparr>"
    by (cases v) (auto simp: parse_analysis_response_def Let_def empty_analysis_def)
next
  assume "parse_analysis_response lib response = Inr a"
  with assms show "raw_response a = alternative_message first_alt"
    by (auto simp: parse_analysis_response_def Let_def empty_analysis_def regex_fallback_raw
          split: json.splits sum.splits)
qed

text \<open>An exception of \<open>json.loads\<close> other than \<open>JSONDecodeError\<close> leaves the normalizer.\<close>

lemma json_exception_escapes:
  assumes "resp_error response = None"
    and "resp_alternatives response = first_alt # others"
    and "startswith (clean_message (alternative_message first_alt)) (str ''{'')"
    and "endswith (clean_message (alternative_message first_alt)) (str ''}'')"
    and "json_loads lib (clean_message (alternative_message first_alt)) = Inl e"
    and "e \<noteq> JSONDecodeError"
  shows "parse_analysis_response lib response = Inl e"
proof -
  have "try_loads lib (clean_message (alternative_message first_alt)) = Inl e"
    using assms(5,6) by (cases e) (simp_all add: try_loads_def)
  then have "parsed_json lib (alternative_message first_alt) = Inl e"
    using assms(3,4) by (simp add: parsed_json_def direct_json_def)
  then show ?thesis
    using assms(1,2) by (simp add: parse_analysis_response_def)
qed

subsection \<open>An integer literal beyond the digit limit\<close>

lemma takeWhile_long: "takeWhile ascii_digit (long_int_text @ str '' x}'') = long_int_text"
proof -
  have "\<forall>c\<in>set long_int_text. ascii_digit c"
    by (simp add: long_int_text_def ascii_digit_def)
  moreover have "\<not> ascii_digit 32" by (simp add: ascii_digit_def)
  ultimately show ?thesis
    by (simp add: str_def takeWhile_append2 del: set_replicate)
qed

lemma scan_number_long: "scan_number (long_int_text @ str '' x}'') = Inl ValueError"
proof -
  have 1: "\<not> startswith (long_int_text @ str '' x}'') (str ''-'')"
    by (simp add: startswith_def long_int_text_def str_def)
  have 2: "\<not> startswith (long_int_text @ str '' x}'') (str ''0'')"
    by (simp add: startswith_def long_int_text_def str_def)
  have 3: "long_int_text \<noteq> []" by (simp add: long_int_text_def)
  have 4: "4300 < length long_int_text" by (simp add: long_int_text_def)
  show ?thesis
    unfolding scan_number_def Let_def
    by (simp add: 1 2 3 4 takeWhile_long) (simp add: str_def)
qed

lemma parse_value_long_int:
  "parse_value (Suc n) (long_int_text @ str '' x}'') = Inl ValueError"
proof -
  have "parse_value (Suc n) (49 # (replicate 4300 48 @ str '' x}''))
          = scan_number (49 # (replicate 4300 48 @ str '' x}''))"
    by (rule parse_value_digit) simp_all
  then have "parse_value (Suc n) (long_int_text @ str '' x}'')
               = scan_number (long_int_text @ str '' x}'')"
    by (simp add: long_int_text_def)
  then show ?thesis by (simp only: scan_number_long)
qed

lemma parse_members_long:
  "parse_members (Suc (Suc n)) (str ''\"a\": '' @ long_int_text @ str '' x}'') []
     = Inl ValueError"
proof -
  have a: "str ''\"a\": '' @ long_int_text @ str '' x}''
        = 34 # 97 # 34 # (58 # 32 # (long_int_text @ str '' x}''))"
    by (simp add: str_def)
  have b: "json_skip (58 # 32 # (long_int_text @ str '' x}''))
             = 58 # 32 # (long_int_text @ str '' x}'')"
    by (simp add: json_skip_def)
  have c: "json_skip (32 # (long_int_text @ str '' x}'')) = long_int_text @ str '' x}''"
    by (simp add: json_skip_def long_int_text_def)
  show ?thesis
    unfolding a
    by (simp add: cons_result_def b c parse_value_long_int del: parse_value.simps(2))
qed

lemma parse_value_long:
  "parse_value (Suc (Suc (Suc n))) long_int_reply = Inl ValueError"
proof -
  have a: "long_int_reply = 123 # (str ''\"a\": '' @ long_int_text @ str '' x}'')"
    by (simp add: long_int_reply_def str_def)
  have b: "json_skip (str ''\"a\": '' @ long_int_text @ str '' x}'')
             = str ''\"a\": '' @ long_int_text @ str '' x}''"
    by (simp add: json_skip_def str_def)
  have c: "\<not> startswith (str ''\"a\": '' @ long_int_text @ str '' x}'') (str ''}'')"
    by (simp add: startswith_def str_def)
  show ?thesis
    unfolding a
    by (simp add: b c parse_members_long del: parse_members.simps(2))
qed

lemma loads_long: "py_json_loads long_int_reply = Inl ValueError"
proof -
  have "length long_int_reply = Suc (Suc 4308)"
    by (simp add: long_int_reply_def long_int_text_def str_def)
  then have 1: "parse_value (Suc (length long_int_reply)) long_int_reply = Inl ValueError"
    by (simp only: parse_value_long)
  have 2: "json_skip long_int_reply = long_int_reply"
    by (simp add: json_skip_def long_int_reply_def str_def)
  show ?thesis
    unfolding py_json_loads_def 2 1 by simp
qed

lemma clean_long: "clean_message long_int_reply = long_int_reply"
proof -
  have "strip long_int_reply = long_int_reply"
    by (simp add: strip_id long_int_reply_def str_def isspace_def)
  moreover have "\<not> startswith long_int_reply (str ''```json'')"
    by (simp add: startswith_def long_int_reply_def str_def)
  ultimately show ?thesis by (rule clean_message_plain)
qed

lemma search_lit_i_none:
  assumes "\<not> contains msg mark" and "\<forall>c\<in>set mark. c < 65"
  shows "search (Seq (lit_i mark) R) msg = None"
  unfolding search_def
proof (rule search_from_none)
  fix i
  have "\<not> startswith (rest (advance i (start_state msg))) mark"
    using no_occurrence [OF assms(1)] by (simp add: start_state_def)
  then show "rx_match (Seq (lit_i mark) R) (advance i (start_state msg)) Some = None"
    using assms(2) by (rule lit_i_start_miss)
next
  show "length msg \<le> length (rest (start_state msg))" by (simp add: start_state_def)
qed

lemma no_full_stop: "46 \<notin> set s \<Longrightarrow> \<not> contains s (c # 46 # r)"
  using contains_set by fastforce

lemma long_no_full_stop: "46 \<notin> set long_int_reply"
  by (simp add: long_int_reply_def long_int_text_def str_def)

lemma long_no_fence: "\<not> contains long_int_reply (str ''```json'')"
proof
  assume "contains long_int_reply (str ''```json'')"
  then have "set (str ''```json'') \<subseteq> set long_int_reply" by (rule contains_set)
  then show False by (simp add: long_int_reply_def long_int_text_def str_def)
qed

text \<open>
  C4. The claim is that a reply without a parseable JSON object and without numbered
  sections gives the result with empty lists, and this holds whenever the JSON tiers
  return (\<open>ungrounded_reply_returns\<close>). But \<open>json.loads\<close> can raise other exceptions than
  the \<open>JSONDecodeError\<close> that the tiers catch: on the reply \<open>{"a": 10...0 x}\<close> with an
  integer of 4301 digits, which is not JSON, has no fenced block and matches none of the
  section patterns, it raises \<open>ValueError\<close>, and so does the normalizer.
\<close>

theorem long_int_raises_value_error:
  "parse_analysis_response ascii_lib (reply long_int_reply) = Inl ValueError
   \<and> py_json_loads long_int_reply = Inl ValueError
   \<and> search json_block_rx long_int_reply = None
   \<and> search quality_rx long_int_reply = None
   \<and> search practices_rx long_int_reply = None
   \<and> search (score_rx ascii_lib) long_int_reply = None"
proof (intro conjI)
  have s: "startswith long_int_reply (str ''{'')"
    by (simp add: startswith_def long_int_reply_def str_def)
  have e: "endswith long_int_reply (str ''}'')"
    by (simp add: endswith_def long_int_reply_def long_int_text_def str_def)
  show "parse_analysis_response ascii_lib (reply long_int_reply) = Inl ValueError"
    by (rule json_exception_escapes [where first_alt = "ObjText long_int_reply" and others = "[]"])
       (simp_all add: reply_def clean_long s e loads_long ascii_lib_def)
  show "py_json_loads long_int_reply = Inl ValueError" by (rule loads_long)
  show "search json_block_rx long_int_reply = None"
    using long_no_fence by (rule search_json_block_none)
  have q: "\<not> contains long_int_reply (c # 46 # r)" for c r
    using long_no_full_stop by (rule no_full_stop)
  show "search quality_rx long_int_reply = None"
    unfolding quality_rx_def section_rx_def seq.simps
    by (rule search_lit_i_none) (simp_all add: str_def q)
  show "search practices_rx long_int_reply = None"
    unfolding practices_rx_def section_rx_def seq.simps
    by (rule search_lit_i_none) (simp_all add: str_def q)
  show "search (score_rx ascii_lib) long_int_reply = None"
    unfolding score_rx_def seq.simps
    by (rule search_lit_i_none) (simp_all add: str_def q)
qed

lemma block_search_plain: "search json_block_rx plain_prose = None"
  by (simp add: search_def start_state_def json_block_rx_def lit_def str_def plain_prose_def
        advance_def)

lemma quality_search_plain: "search quality_rx plain_prose = None"
  by (simp add: search_def start_state_def quality_rx_def section_rx_def lit_i_def str_def
        plain_prose_def advance_def ci_def lower_ascii_def opt_def)

lemma practices_search_plain: "search practices_rx plain_prose = None"
  by (simp add: search_def start_state_def practices_rx_def section_rx_def lit_i_def str_def
        plain_prose_def advance_def ci_def lower_ascii_def opt_def)

lemma score_search_plain: "search (score_rx lib) plain_prose = None"
  by (simp add: search_def start_state_def score_rx_def lit_i_def str_def plain_prose_def
        advance_def ci_def lower_ascii_def opt_def)

lemma parsed_json_plain: "parsed_json lib plain_prose = Inr JNull"
proof -
  have "clean_message plain_prose = plain_prose"
    by (simp add: clean_message_def strip_def isspace_def str_def startswith_def
          plain_prose_def)
  moreover have "\<not> startswith plain_prose (str ''{'')"
    by (simp add: startswith_def str_def plain_prose_def)
  ultimately show ?thesis
    by (simp add: parsed_json_def direct_json_def block_json_def block_search_plain)
qed

text \<open>The reply of scenario 3 of the specification, in prose.\<close>

lemma plain_prose_result:
  "parse_analysis_response ascii_lib (reply plain_prose) =
     Inr \<lparr>quality_issues = [], good_practices = [], patterns = [], anti_patterns = [],
          overall_score = None, raw_response = plain_prose, error = None\<rparr>"
  using ungrounded_reply_returns(1) [of "reply plain_prose" "ObjText plain_prose" "[]" ascii_lib]
  by (simp add: reply_def parsed_json_plain quality_search_plain practices_search_plain
        score_search_plain)

section \<open>The third tier on numbered prose\<close>

subsection \<open>Bulleted items\<close>

lemma plain_items_example:
  "list_all plain_item [str ''Long function'', str ''Magic number 4'']"
  "list_all plain_item [str ''Uses tests'']"
  by (simp_all add: plain_item_def str_def isspace_def startswith_def)

lemma bulleted_prose_example:
  "parse_analysis_response ascii_lib
     (reply (numbered_prose [str ''Long function'', str ''Magic number 4''] [str ''Uses tests''] 7)) =
     Inr \<lparr>quality_issues = [JStr (str ''Long function''), JStr (str ''Magic number 4'')],
          good_practices = [JStr (str ''Uses tests'')],
          patterns = [], anti_patterns = [],
          overall_score = Some (PyFloat 7),
          raw_response =
            numbered_prose [str ''Long function'', str ''Magic number 4''] [str ''Uses tests''] 7,
          error = None\<rparr>"
  using bulleted_prose_result [OF _ _ plain_items_example, of ascii_lib 7]
  by (simp add: float_limit_def ascii_lib_def)

subsection \<open>Numbered items\<close>

lemma quality_numbered:
  "map_option (\<lambda>m. match_group m 1) (search quality_rx numbered_reply) = Some (str ''1. A'')"
  by (simp add: search_def start_state_def quality_rx_def section_rx_def lit_i_def str_def
        numbered_reply_def advance_def ci_def lower_ascii_def opt_def isspace_def any_char_def
        match_group_def)

lemma practices_numbered:
  "map_option (\<lambda>m. match_group m 1) (search practices_rx numbered_reply) = Some (str ''1. C'')"
  by (simp add: search_def start_state_def practices_rx_def section_rx_def lit_i_def str_def
        numbered_reply_def advance_def ci_def lower_ascii_def opt_def isspace_def any_char_def
        match_group_def)

lemma score_numbered:
  "map_option (\<lambda>m. match_group m 1) (search (score_rx ascii_lib) numbered_reply) = Some (str ''7'')"
  by (simp add: search_def start_state_def score_rx_def lit_i_def str_def numbered_reply_def
        advance_def ci_def lower_ascii_def opt_def isspace_def any_char_def digit_def
        ascii_digit_def match_group_def)

lemma items_numbered:
  "section_items ascii_lib (str ''1. A'') = [JStr (str ''A'')]"
  "section_items ascii_lib (str ''1. C'') = [JStr (str ''C'')]"
  by (simp_all add: section_items_def findall_def findall_from.simps start_state_def
        bullet_rx_def numbered_rx_def lit_def str_def advance_def isspace_def dot_def digit_def
        ascii_digit_def match_group_def strip_def Let_def)

lemma strip_numbered:
  "strip (str ''1. A'') = str ''1. A''" "strip (str ''1. C'') = str ''1. C''"
  by (simp_all add: strip_def str_def isspace_def)

lemma float_of_str_7: "float_of_str ascii_lib (str ''7'') = Some (PyFloat 7)"
  by (simp add: float_of_str_def decimal_value_def is_digits_def ascii_digit_def
        digits_value_def float_limit_def str_def ascii_lib_def)

lemma parsed_json_numbered: "parsed_json lib numbered_reply = Inr JNull"
proof (rule parsed_json_prose)
  show "strip numbered_reply = numbered_reply"
    by (simp add: strip_id numbered_reply_def str_def isspace_def)
  show "\<not> startswith numbered_reply (str ''{'')"
    by (simp add: startswith_def numbered_reply_def str_def)
  show "\<not> contains numbered_reply (str ''```json'')"
  proof
    assume "contains numbered_reply (str ''```json'')"
    then have "set (str ''```json'') \<subseteq> set numbered_reply" by (rule contains_set)
    then show False by (simp add: numbered_reply_def str_def)
  qed
qed

lemma fallback_numbered:
  "regex_fallback ascii_lib numbered_reply (empty_analysis numbered_reply None) =
     \<lparr>quality_issues = [JStr (str ''A'')], good_practices = [JStr (str ''C'')],
      patterns = [], anti_patterns = [], overall_score = Some (PyFloat 7),
      raw_response = numbered_reply, error = None\<rparr>"
proof -
  obtain mq where mq: "search quality_rx numbered_reply = Some mq"
      "match_group mq 1 = str ''1. A''"
    using quality_numbered by (cases "search quality_rx numbered_reply") auto
  obtain mp where mp: "search practices_rx numbered_reply = Some mp"
      "match_group mp 1 = str ''1. C''"
    using practices_numbered by (cases "search practices_rx numbered_reply") auto
  obtain ms where ms: "search (score_rx ascii_lib) numbered_reply = Some ms"
      "match_group ms 1 = str ''7''"
    using score_numbered by (cases "search (score_rx ascii_lib) numbered_reply") auto
  show ?thesis
    using mq mp ms
    by (simp add: regex_fallback_def empty_analysis_def strip_numbered items_numbered
          float_of_str_7)
qed

text \<open>
  C3. The claim is that on a reply without JSON and with the three numbered sections the
  third tier fills \<open>quality_issues\<close> and \<open>good_practices\<close> from the bullet- or
  number-prefixed lines of the sections, takes the score from \<open>n/10\<close> and leaves
  \<open>patterns\<close> and \<open>anti_patterns\<close> empty. With bulleted lines it does
  (\<open>bulleted_prose_result\<close>). With numbered lines it does not: the first section is taken
  to end before the first line that starts with \<open>2.\<close>, so of the issues \<open>1. A\<close> and
  \<open>2. B\<close> only \<open>A\<close> is returned.
\<close>

theorem numbered_items_lost:
  "parse_analysis_response ascii_lib (reply numbered_reply) =
     Inr \<lparr>quality_issues = [JStr (str ''A'')], good_practices = [JStr (str ''C'')],
          patterns = [], anti_patterns = [], overall_score = Some (PyFloat 7),
          raw_response = numbered_reply, error = None\<rparr>"
  by (simp add: parse_analysis_response_def reply_def parsed_json_numbered fallback_numbered)

end
